theory Spec2Isabelle
  imports Main "HOL-Library.Word" "HOL-Library.Monad_Syntax"
begin

unbundle bit_operations_syntax

section \<open>Page-granular modification tracking (word\_manager.h)\<close>

subsection \<open>Constants and data\<close>

type_synonym u64 = "64 word"
type_synonym VAddr = "64 word"

definition PAGES_PER_WORD :: u64 where
  "PAGES_PER_WORD = 64"

definition BYTES_PER_PAGE :: u64 where
  "BYTES_PER_PAGE = 4096"

definition BYTES_PER_WORD :: u64 where
  "BYTES_PER_WORD = PAGES_PER_WORD * BYTES_PER_PAGE"

definition HIGHER_PAGE_BITS :: nat where
  "HIGHER_PAGE_BITS = 22"

definition HIGHER_PAGE_SIZE :: u64 where
  "HIGHER_PAGE_SIZE = push_bit HIGHER_PAGE_BITS 1"

definition NUM_REGION_WORDS :: u64 where
  "NUM_REGION_WORDS = HIGHER_PAGE_SIZE div BYTES_PER_WORD"

datatype Type = CPU | GPU

text \<open>The four bitsets of a region. Each is a \<open>std::array<u64, NUM_REGION_WORDS>\<close>;
  bit \<open>b\<close> of word \<open>i\<close> stands for page \<open>64 * i + b\<close> of the region.\<close>

record RegionManager =
  cpu_addr :: VAddr
  cpu :: "u64 list"
  gpu :: "u64 list"
  write_bits :: "u64 list"
  read_bits :: "u64 list"

text \<open>Calls that leave the region manager: \<open>tracker->UpdatePageWatchers<delta, is_read>(addr, size)\<close>
  and the callback \<open>func(addr, size)\<close> handed to \<open>ForEachModifiedRange\<close>. They are
  recorded in the order in which they are made.\<close>

datatype call =
  UpdatePageWatchers int bool VAddr u64
  | Callback VAddr u64

text \<open>The constructor \<open>RegionManager(tracker_, cpu_addr_)\<close>.\<close>

definition RegionManager_new :: "VAddr \<Rightarrow> RegionManager" where
  "RegionManager_new base =
     \<lparr> cpu_addr = base,
       cpu = replicate (unat NUM_REGION_WORDS) (NOT 0),
       gpu = replicate (unat NUM_REGION_WORDS) 0,
       write_bits = replicate (unat NUM_REGION_WORDS) (NOT 0),
       read_bits = replicate (unat NUM_REGION_WORDS) (NOT 0) \<rparr>"

text \<open>Reading and writing \<open>array[index]\<close>. An index outside the array is undefined
  behaviour in the source; here it is the failure \<open>None\<close>.\<close>

definition word_at :: "u64 list \<Rightarrow> nat \<Rightarrow> u64 option" where
  "word_at xs i = (if i < length xs then Some (xs ! i) else None)"

definition modify_at :: "u64 list \<Rightarrow> nat \<Rightarrow> (u64 \<Rightarrow> u64) \<Rightarrow> u64 list option" where
  "modify_at xs i f = (if i < length xs then Some (xs[i := f (xs ! i)]) else None)"

subsection \<open>ExtractBits, GetWordPage\<close>

text \<open>A shift of a 64-bit value by 64 or more is undefined in the source: \<open>None\<close>.\<close>

definition shl :: "u64 \<Rightarrow> u64 \<Rightarrow> u64 option" where
  "shl w n = (if n < 64 then Some (push_bit (unat n) w) else None)"

definition shr :: "u64 \<Rightarrow> u64 \<Rightarrow> u64 option" where
  "shr w n = (if n < 64 then Some (drop_bit (unat n) w) else None)"

definition ExtractBits :: "u64 \<Rightarrow> u64 \<Rightarrow> u64 \<Rightarrow> u64 option" where
  "ExtractBits word page_start page_end =
     (let number_bits = 64;
          limit_page_end = number_bits - min page_end number_bits
      in do {
        bits \<leftarrow> shr word page_start;
        bits \<leftarrow> shl bits page_start;
        bits \<leftarrow> shl bits limit_page_end;
        bits \<leftarrow> shr bits limit_page_end;
        Some bits
      })"

definition GetWordPage :: "VAddr \<Rightarrow> u64 \<times> u64" where
  "GetWordPage address =
     (let converted_address = address;
          word_number = converted_address div BYTES_PER_WORD;
          amount_pages = converted_address mod BYTES_PER_WORD
      in (word_number, amount_pages div BYTES_PER_PAGE))"

subsection \<open>IterateWords\<close>

text \<open>\<open>static_cast<size_t>(std::max<s64>(static_cast<s64>(x), 0LL))\<close>\<close>

definition max_s64_0 :: "u64 \<Rightarrow> u64" where
  "max_s64_0 x = word_of_int (max (sint x) 0)"

lemma unat_word_succ: "(w :: u64) < e \<Longrightarrow> unat (w + 1) = Suc (unat w)"
proof -
  assume "w < e"
  then have "unat w < unat e" by (simp add: word_less_nat_alt)
  moreover have "unat e < 2 ^ 64" using unsigned_less[of e] by simp
  ultimately have "unat w + 1 < 2 ^ 64" by simp
  then show ?thesis by (simp add: unat_word_ariths)
qed

text \<open>The \<open>for\<close> loop of \<open>IterateWords\<close>. The callback receives the word index and the
  mask and transforms the state of the caller; it returns \<open>True\<close> to break out of the
  loop (the \<open>BOOL_BREAK\<close> instantiation) and may fail.\<close>

function IterateWords_loop ::
  "(nat \<Rightarrow> u64 \<Rightarrow> 's \<Rightarrow> (bool \<times> 's) option) \<Rightarrow> u64 \<Rightarrow> u64 \<Rightarrow> u64 \<Rightarrow> u64 \<Rightarrow> 's \<Rightarrow> 's option"
where
  "IterateWords_loop func end_word word_index start_page end_page s =
     (if word_index < end_word then
        do {
          msk \<leftarrow> ExtractBits (NOT 0) start_page end_page;
          (stop, s') \<leftarrow> func (unat word_index) msk s;
          if stop then Some s'
          else IterateWords_loop func end_word (word_index + 1) 0 (end_page - PAGES_PER_WORD) s'
        }
      else Some s)"
  by pat_completeness auto
termination
  by (relation "measure (\<lambda>(func, end_word, word_index, start_page, end_page, s).
                  unat end_word - unat word_index)")
     (auto simp: unat_word_succ word_less_nat_alt)

declare IterateWords_loop.simps [simp del]

definition IterateWords ::
  "u64 \<Rightarrow> u64 \<Rightarrow> (nat \<Rightarrow> u64 \<Rightarrow> 's \<Rightarrow> (bool \<times> 's) option) \<Rightarrow> 's \<Rightarrow> 's option"
where
  "IterateWords offset sz func s =
     (let start = max_s64_0 offset;
          end = max_s64_0 (offset + sz)
      in if start \<ge> HIGHER_PAGE_SIZE \<or> end \<le> start then Some s
         else
           let (start_word, start_page) = GetWordPage start;
               (end_word, end_page) = GetWordPage (end + BYTES_PER_PAGE - 1);
               num_words = NUM_REGION_WORDS;
               start_word = min start_word num_words;
               end_word = min end_word num_words;
               diff = end_word - start_word;
               end_word = end_word + (end_page + PAGES_PER_WORD - 1) div PAGES_PER_WORD;
               end_word = min end_word num_words;
               end_page = end_page + diff * PAGES_PER_WORD
           in IterateWords_loop func end_word start_word start_page end_page s)"

subsection \<open>IteratePages\<close>

text \<open>\<open>std::countr_zero\<close> and \<open>std::countr_one\<close> of the C++ standard library: the number of
  consecutive 0 (1) bits starting at the least significant bit; 64 when there is no other
  bit.\<close>

definition bits_of :: "u64 \<Rightarrow> bool list" where
  "bits_of w = map (bit w) [0..<64]"

definition countr_zero :: "u64 \<Rightarrow> nat" where
  "countr_zero w = length (takeWhile Not (bits_of w))"

definition countr_one :: "u64 \<Rightarrow> nat" where
  "countr_one w = length (takeWhile (\<lambda>b. b) (bits_of w))"

lemma length_bits_of: "length (bits_of w) = 64"
  by (simp add: bits_of_def)

lemma nth_bits_of: "i < 64 \<Longrightarrow> bits_of w ! i = bit w i"
  by (simp add: bits_of_def)

lemma countr_zero_le: "countr_zero w \<le> 64"
  unfolding countr_zero_def using length_takeWhile_le[of Not "bits_of w"]
  by (simp add: length_bits_of)

lemma countr_one_le: "countr_one w \<le> 64"
  unfolding countr_one_def using length_takeWhile_le[of "\<lambda>b. b" "bits_of w"]
  by (simp add: length_bits_of)

lemma countr_zero_clear: "i < countr_zero w \<Longrightarrow> \<not> bit w i"
proof -
  assume a: "i < countr_zero w"
  then have "i < 64" using countr_zero_le[of w] by simp
  from a have "takeWhile Not (bits_of w) ! i = bits_of w ! i"
    unfolding countr_zero_def by (rule takeWhile_nth)
  moreover from a have "takeWhile Not (bits_of w) ! i \<in> set (takeWhile Not (bits_of w))"
    unfolding countr_zero_def by (rule nth_mem)
  ultimately have "\<not> bits_of w ! i" by (metis set_takeWhileD)
  with \<open>i < 64\<close> show ?thesis by (simp add: nth_bits_of)
qed

lemma countr_one_set: "i < countr_one w \<Longrightarrow> bit w i"
proof -
  assume a: "i < countr_one w"
  then have "i < 64" using countr_one_le[of w] by simp
  from a have "takeWhile (\<lambda>b. b) (bits_of w) ! i = bits_of w ! i"
    unfolding countr_one_def by (rule takeWhile_nth)
  moreover from a have "takeWhile (\<lambda>b. b) (bits_of w) ! i \<in> set (takeWhile (\<lambda>b. b) (bits_of w))"
    unfolding countr_one_def by (rule nth_mem)
  ultimately have "bits_of w ! i" by (metis set_takeWhileD)
  with \<open>i < 64\<close> show ?thesis by (simp add: nth_bits_of)
qed

lemma countr_zero_stop: "countr_zero w < 64 \<Longrightarrow> bit w (countr_zero w)"
  unfolding countr_zero_def
  using nth_length_takeWhile[of Not "bits_of w"]
  by (simp add: length_bits_of nth_bits_of)

lemma countr_one_stop: "countr_one w < 64 \<Longrightarrow> \<not> bit w (countr_one w)"
  unfolding countr_one_def
  using nth_length_takeWhile[of "\<lambda>b. b" "bits_of w"]
  by (simp add: length_bits_of nth_bits_of)

lemma countr_zero_lt: "w \<noteq> 0 \<Longrightarrow> countr_zero w < 64"
proof (rule ccontr)
  assume nz: "w \<noteq> 0" and "\<not> countr_zero w < 64"
  then have "countr_zero w = 64" using countr_zero_le[of w] by simp
  then have "\<And>i. i < 64 \<Longrightarrow> \<not> bit w i" using countr_zero_clear[of _ w] by simp
  then have "w = 0" by (intro bit_word_eqI) simp
  with nz show False by simp
qed

lemma countr_one_pos: "bit w 0 \<Longrightarrow> 0 < countr_one w"
  unfolding countr_one_def bits_of_def
  by (simp add: upt_rec[of 0 64])

lemma IteratePages_decreases:
  assumes "msk \<noteq> 0"
  shows "unat (drop_bit (countr_one (drop_bit (countr_zero msk) msk) + countr_zero msk) msk)
           < unat msk"
proof -
  let ?e = "countr_zero msk"
  let ?c = "countr_one (drop_bit ?e msk)"
  have "bit msk ?e" using assms by (simp add: countr_zero_lt countr_zero_stop)
  then have "bit (drop_bit ?e msk) 0" by (simp add: bit_drop_bit_eq)
  then have "0 < ?c" by (rule countr_one_pos)
  then have "(2::nat) \<le> 2 ^ (?c + ?e)"
    using power_increasing[of 1 "?c + ?e" "2::nat"] by simp
  moreover have "0 < unat msk" using assms by (simp add: unat_gt_0)
  ultimately have "unat msk div 2 ^ (?c + ?e) < unat msk"
    by (intro div_less_dividend) simp_all
  moreover have "unat (drop_bit (?c + ?e) msk) = unat msk div 2 ^ (?c + ?e)"
    by (subst unat_drop_bit_eq) (rule drop_bit_eq_div)
  ultimately show ?thesis by simp
qed

function IteratePages_loop :: "(nat \<Rightarrow> nat \<Rightarrow> 's \<Rightarrow> 's) \<Rightarrow> nat \<Rightarrow> u64 \<Rightarrow> 's \<Rightarrow> 's" where
  "IteratePages_loop func offset msk s =
     (if msk \<noteq> 0 then
        let empty_bits = countr_zero msk;
            offset = offset + empty_bits;
            msk = drop_bit empty_bits msk;
            continuous_bits = countr_one msk;
            s = func offset continuous_bits s;
            msk = (if continuous_bits < unat PAGES_PER_WORD then drop_bit continuous_bits msk else 0);
            offset = offset + continuous_bits
        in IteratePages_loop func offset msk s
      else s)"
  by pat_completeness auto
termination
  by (relation "measure (\<lambda>(func, offset, msk, s). unat msk)")
     (auto simp: IteratePages_decreases unat_gt_0)

declare IteratePages_loop.simps [simp del]

definition IteratePages :: "u64 \<Rightarrow> (nat \<Rightarrow> nat \<Rightarrow> 's \<Rightarrow> 's) \<Rightarrow> 's \<Rightarrow> 's" where
  "IteratePages msk func s = IteratePages_loop func 0 msk s"

subsection \<open>UpdateProtection and the three operations\<close>

text \<open>\<open>UpdateProtection<add_to_tracker, is_read>(word_index, access_bits, mask)\<close>.
  \<open>access_bits\<close> are the bits of the pages of the word that are unprotected; the calls to
  the tracker are appended to the list of calls made so far.\<close>

definition UpdateProtection ::
  "bool \<Rightarrow> bool \<Rightarrow> VAddr \<Rightarrow> nat \<Rightarrow> u64 \<Rightarrow> u64 \<Rightarrow> call list \<Rightarrow> call list"
where
  "UpdateProtection add_to_tracker is_read base word_index access_bits msk calls =
     (let delta = (if add_to_tracker then 1 else - 1);
          changed_bits = (if add_to_tracker then access_bits else NOT access_bits) AND msk;
          addr = base + of_nat word_index * BYTES_PER_WORD
      in IteratePages changed_bits
           (\<lambda>offset sz calls. calls @
              [UpdatePageWatchers delta is_read (addr + of_nat offset * BYTES_PER_PAGE)
                 (of_nat sz * BYTES_PER_PAGE)])
           calls)"

definition Span :: "Type \<Rightarrow> RegionManager \<Rightarrow> u64 list" where
  "Span type r = (case type of CPU \<Rightarrow> cpu r | GPU \<Rightarrow> gpu r)"

definition Span_update :: "Type \<Rightarrow> u64 list \<Rightarrow> RegionManager \<Rightarrow> RegionManager" where
  "Span_update type ws r = (case type of CPU \<Rightarrow> r\<lparr>cpu := ws\<rparr> | GPU \<Rightarrow> r\<lparr>gpu := ws\<rparr>)"

text \<open>The body of the lambda of \<open>ChangeRegionState<type, is_dirty>\<close>, for one word.\<close>

definition ChangeRegionState_word ::
  "Type \<Rightarrow> bool \<Rightarrow> nat \<Rightarrow> u64 \<Rightarrow> RegionManager \<times> call list \<Rightarrow> (RegionManager \<times> call list) option"
where
  "ChangeRegionState_word type is_dirty index msk rc =
     (let (r, calls) = rc in
      case type of
        CPU \<Rightarrow> do {
          w \<leftarrow> word_at (write_bits r) index;
          let calls = UpdateProtection (\<not> is_dirty) False (cpu_addr r) index w msk calls;
          if is_dirty then do {
            c \<leftarrow> modify_at (cpu r) index (\<lambda>x. x OR msk);
            w \<leftarrow> modify_at (write_bits r) index (\<lambda>x. x OR msk);
            Some (r\<lparr>cpu := c, write_bits := w\<rparr>, calls)
          } else do {
            c \<leftarrow> modify_at (cpu r) index (\<lambda>x. x AND NOT msk);
            w \<leftarrow> modify_at (write_bits r) index (\<lambda>x. x AND NOT msk);
            Some (r\<lparr>cpu := c, write_bits := w\<rparr>, calls)
          }
        }
      | GPU \<Rightarrow> do {
          w \<leftarrow> word_at (write_bits r) index;
          let calls = UpdateProtection True False (cpu_addr r) index w msk calls;
          rd \<leftarrow> word_at (read_bits r) index;
          let calls = UpdateProtection is_dirty True (cpu_addr r) index rd msk calls;
          w \<leftarrow> modify_at (write_bits r) index (\<lambda>x. x AND NOT msk);
          if is_dirty then do {
            g \<leftarrow> modify_at (gpu r) index (\<lambda>x. x OR msk);
            rd \<leftarrow> modify_at (read_bits r) index (\<lambda>x. x AND NOT msk);
            Some (r\<lparr>gpu := g, write_bits := w, read_bits := rd\<rparr>, calls)
          } else do {
            g \<leftarrow> modify_at (gpu r) index (\<lambda>x. x AND NOT msk);
            rd \<leftarrow> modify_at (read_bits r) index (\<lambda>x. x OR msk);
            Some (r\<lparr>gpu := g, write_bits := w, read_bits := rd\<rparr>, calls)
          }
        })"

text \<open>\<open>ChangeRegionState<type, is_dirty>(dirty_addr, size)\<close>. The state is the region
  together with the calls made to the tracker.\<close>

definition ChangeRegionState ::
  "Type \<Rightarrow> bool \<Rightarrow> VAddr \<Rightarrow> u64 \<Rightarrow> RegionManager \<times> call list \<Rightarrow> (RegionManager \<times> call list) option"
where
  "ChangeRegionState type is_dirty dirty_addr sz rc =
     IterateWords (dirty_addr - cpu_addr (fst rc)) sz
       (\<lambda>index msk rc. map_option (Pair False) (ChangeRegionState_word type is_dirty index msk rc))
       rc"

text \<open>The local variables of \<open>ForEachModifiedRange\<close> that its lambdas capture by
  reference, together with the calls made so far.\<close>

record range_state =
  calls :: "call list"
  pending :: bool
  pending_offset :: nat
  pending_pointer :: nat

text \<open>The lambda \<open>release\<close>: the call \<open>func(cpu_addr + pending_offset * BYTES_PER_PAGE,
  (pending_pointer - pending_offset) * BYTES_PER_PAGE)\<close>.\<close>

definition release :: "VAddr \<Rightarrow> range_state \<Rightarrow> range_state" where
  "release base st =
     st\<lparr>calls := calls st @
          [Callback (base + of_nat (pending_offset st) * BYTES_PER_PAGE)
             ((of_nat (pending_pointer st) - of_nat (pending_offset st)) * BYTES_PER_PAGE)]\<rparr>"

text \<open>The lambda handed to \<open>IteratePages\<close>, with its inner lambda \<open>reset\<close>.\<close>

definition reset :: "nat \<Rightarrow> nat \<Rightarrow> nat \<Rightarrow> range_state \<Rightarrow> range_state" where
  "reset base_offset pages_offset pages_size st =
     st\<lparr>pending_offset := base_offset + pages_offset,
        pending_pointer := base_offset + pages_offset + pages_size\<rparr>"

definition on_pages :: "VAddr \<Rightarrow> nat \<Rightarrow> nat \<Rightarrow> nat \<Rightarrow> range_state \<Rightarrow> range_state" where
  "on_pages base base_offset pages_offset pages_size st =
     (if \<not> pending st then (reset base_offset pages_offset pages_size st)\<lparr>pending := True\<rparr>
      else if pending_pointer st = base_offset + pages_offset
        then st\<lparr>pending_pointer := pending_pointer st + pages_size\<rparr>
      else reset base_offset pages_offset pages_size (release base st))"

text \<open>The body of the lambda handed to \<open>IterateWords\<close>, for one word.\<close>

definition ForEachModifiedRange_word ::
  "Type \<Rightarrow> bool \<Rightarrow> nat \<Rightarrow> u64 \<Rightarrow> RegionManager \<times> range_state
     \<Rightarrow> (RegionManager \<times> range_state) option"
where
  "ForEachModifiedRange_word type clear index msk rs =
     (let (r, st) = rs in
      do {
        state_word \<leftarrow> word_at (Span type r) index;
        let word = state_word AND msk;
        (r', st) \<leftarrow>
          (if clear then
             (case type of
                CPU \<Rightarrow> do {
                  w \<leftarrow> word_at (write_bits r) index;
                  let cs = UpdateProtection True False (cpu_addr r) index w msk (calls st);
                  w \<leftarrow> modify_at (write_bits r) index (\<lambda>x. x AND NOT msk);
                  c \<leftarrow> modify_at (cpu r) index (\<lambda>x. x AND NOT msk);
                  Some (r\<lparr>cpu := c, write_bits := w\<rparr>, st\<lparr>calls := cs\<rparr>)
                }
              | GPU \<Rightarrow> do {
                  rd \<leftarrow> word_at (read_bits r) index;
                  let cs = UpdateProtection False True (cpu_addr r) index rd msk (calls st);
                  rd \<leftarrow> modify_at (read_bits r) index (\<lambda>x. x OR msk);
                  g \<leftarrow> modify_at (gpu r) index (\<lambda>x. x AND NOT msk);
                  Some (r\<lparr>gpu := g, read_bits := rd\<rparr>, st\<lparr>calls := cs\<rparr>)
                })
           else Some (r, st));
        let base_offset = index * unat PAGES_PER_WORD;
        Some (r', IteratePages word (on_pages (cpu_addr r) base_offset) st)
      })"

text \<open>\<open>ForEachModifiedRange<type, clear>(query_cpu_range, size, func)\<close>. The parameter
  \<open>size\<close> is an \<open>s64\<close> that is converted to \<open>size_t\<close> at the call of \<open>IterateWords\<close>:
  the same 64 bits.\<close>

definition ForEachModifiedRange ::
  "Type \<Rightarrow> bool \<Rightarrow> VAddr \<Rightarrow> u64 \<Rightarrow> RegionManager \<times> call list \<Rightarrow> (RegionManager \<times> call list) option"
where
  "ForEachModifiedRange type clear query_cpu_range sz rc =
     (let (r, cs) = rc;
          offset = query_cpu_range - cpu_addr r;
          init = \<lparr>calls = cs, pending = False, pending_offset = 0, pending_pointer = 0\<rparr>
      in do {
        (r', st) \<leftarrow> IterateWords offset sz
                 (\<lambda>index msk rs. map_option (Pair False) (ForEachModifiedRange_word type clear index msk rs))
                 (r, init);
        let st = (if pending st then release (cpu_addr r') st else st);
        Some (r', calls st)
      })"

text \<open>\<open>IsRegionModified<type>(offset, size)\<close>.\<close>

definition IsRegionModified :: "Type \<Rightarrow> RegionManager \<Rightarrow> u64 \<Rightarrow> u64 \<Rightarrow> bool option" where
  "IsRegionModified type r offset sz =
     IterateWords offset sz
       (\<lambda>index msk result. do {
          state_word \<leftarrow> word_at (Span type r) index;
          let word = state_word AND msk;
          if word \<noteq> 0 then Some (True, True) else Some (False, result)
        })
       False"

section \<open>The words and masks visited by IterateWords\<close>

lemma consts_simps:
  "PAGES_PER_WORD = 64" "BYTES_PER_PAGE = 4096" "BYTES_PER_WORD = 262144"
  "HIGHER_PAGE_SIZE = 4194304" "NUM_REGION_WORDS = 16"
  by (simp_all add: PAGES_PER_WORD_def BYTES_PER_PAGE_def BYTES_PER_WORD_def
        HIGHER_PAGE_SIZE_def HIGHER_PAGE_BITS_def NUM_REGION_WORDS_def)

definition page_bits :: "nat \<Rightarrow> nat \<Rightarrow> u64" where
  "page_bits lo hi = mask hi AND NOT (mask lo)"

lemma bit_page_bits: "bit (page_bits lo hi) b \<longleftrightarrow> b < 64 \<and> lo \<le> b \<and> b < hi"
  by (auto simp: page_bits_def bit_simps)

lemma ExtractBits_ones:
  assumes "sp < 64" "0 < ep"
  shows "ExtractBits (NOT 0) sp ep = Some (page_bits (unat sp) (min 64 (unat ep)))"
proof -
  let ?l = "64 - min ep 64"
  have l: "?l < 64" using assms(2)
    by (simp add: min_def word_less_nat_alt word_le_nat_alt unat_sub)
  have ul: "unat ?l = 64 - min 64 (unat ep)"
    by (simp add: min_def word_le_nat_alt unat_sub)
  have "push_bit (unat sp) (drop_bit (unat sp) (NOT 0 :: u64)) = page_bits (unat sp) 64"
    by (rule bit_word_eqI) (auto simp: bit_simps bit_page_bits)
  moreover have "drop_bit (unat ?l) (push_bit (unat ?l) (page_bits (unat sp) 64))
      = page_bits (unat sp) (min 64 (unat ep))"
    unfolding ul by (rule bit_word_eqI) (auto simp: bit_simps bit_page_bits)
  ultimately show ?thesis
    using assms(1) l by (simp add: ExtractBits_def shl_def shr_def Let_def)
qed


lemma unat_sub_le: "(b::u64) \<le> a \<Longrightarrow> unat (a - b) = unat a - unat b"
  by (simp add: unat_sub)

lemma IterateWords_loop_rule:
  fixes func :: "nat \<Rightarrow> u64 \<Rightarrow> 's \<Rightarrow> (bool \<times> 's) option"
  assumes "n = unat ew - unat wi" "wi \<le> ew" "sp < 64"
    and "wi < ew \<Longrightarrow> unat ep + 64 * unat wi = V"
    and "wi < ew \<Longrightarrow> 64 * (unat ew - 1) < V"
    and "I (unat wi) s"
    and step: "\<And>w s. unat wi \<le> w \<Longrightarrow> w < unat ew \<Longrightarrow> I w s \<Longrightarrow>
            \<exists>b s'. func w (page_bits (if w = unat wi then unat sp else 0) (min 64 (V - 64 * w))) s
                      = Some (b, s') \<and> (if b then Q s' else I (Suc w) s')"
  shows "\<exists>s'. IterateWords_loop func ew wi sp ep s = Some s' \<and> (Q s' \<or> I (unat ew) s')"
  using assms
proof (induction n arbitrary: wi sp ep s)
  case 0
  then have "wi = ew" by (simp add: word_le_nat_alt word_unat_eq_iff)
  with 0 show ?case by (subst IterateWords_loop.simps) simp
next
  case (Suc n)
  from Suc.prems(1) have lt: "wi < ew" by (simp add: word_less_nat_alt)
  then have ult: "unat wi < unat ew" by (simp add: word_less_nat_alt)
  have V: "unat ep + 64 * unat wi = V" and V2: "64 * (unat ew - 1) < V"
    using Suc.prems(4,5) lt by auto
  have ep_pos: "0 < ep" using V V2 ult by (simp add: word_greater_zero_iff unat_gt_0 [symmetric]) 
  have ueq: "unat ep = V - 64 * unat wi" using V by simp
  from Suc.prems(7)[of "unat wi" s] ult Suc.prems(6)
  obtain b s' where f: "func (unat wi) (page_bits (unat sp) (min 64 (V - 64 * unat wi))) s = Some (b, s')"
    and post: "if b then Q s' else I (Suc (unat wi)) s'"
    by auto
  have eb: "ExtractBits (NOT 0) sp ep = Some (page_bits (unat sp) (min 64 (V - 64 * unat wi)))"
    using ExtractBits_ones[OF Suc.prems(3) ep_pos] ueq by simp
  show ?case
  proof (cases b)
    case True
    with f eb lt post show ?thesis by (subst IterateWords_loop.simps) simp
  next
    case False
    have succ: "unat (wi + 1) = Suc (unat wi)" using lt by (rule unat_word_succ)
    have le': "wi + 1 \<le> ew" using ult succ by (simp add: word_le_nat_alt)
    have n': "n = unat ew - unat (wi + 1)" using Suc.prems(1) succ by simp
    have ep': "wi + 1 < ew \<Longrightarrow> unat (ep - PAGES_PER_WORD) + 64 * unat (wi + 1) = V"
    proof -
      assume "wi + 1 < ew"
      then have "Suc (unat wi) < unat ew" using succ by (simp add: word_less_nat_alt)
      then have "64 \<le> unat ep" using V V2 by simp
      then have "(64::u64) \<le> ep" by (simp add: word_le_nat_alt)
      then have "unat (ep - 64) = unat ep - 64" by (simp add: unat_sub_le)
      with \<open>64 \<le> unat ep\<close> V succ show ?thesis by (simp add: PAGES_PER_WORD_def)
    qed
    have IH: "\<exists>s''. IterateWords_loop func ew (wi + 1) 0 (ep - PAGES_PER_WORD) s' = Some s''
                \<and> (Q s'' \<or> I (unat ew) s'')"
    proof (rule Suc.IH[OF n' le' _ ep'])
      show "(0::u64) < 64" by simp
      show "64 * (unat ew - 1) < V" using V2 .
      show "I (unat (wi + 1)) s'" using post False succ by simp
      fix w s
      assume a: "unat (wi + 1) \<le> w" "w < unat ew" "I w s"
      then have "w \<noteq> unat wi" "unat wi \<le> w" using succ by auto
      moreover have "(if w = unat (wi + 1) then unat (0::u64) else 0) = 0" by simp
      ultimately show "\<exists>b s'. func w (page_bits (if w = unat (wi + 1) then unat (0::u64) else 0) (min 64 (V - 64 * w))) s
                      = Some (b, s') \<and> (if b then Q s' else I (Suc w) s')"
        using Suc.prems(7)[of w s] a by (simp only: if_False)
    qed
    with f eb lt False show ?thesis by (subst IterateWords_loop.simps) simp
  qed
qed


definition query_start :: "u64 \<Rightarrow> nat" where
  "query_start offset = nat (max (sint offset) 0)"

definition query_end :: "u64 \<Rightarrow> u64 \<Rightarrow> nat" where
  "query_end offset sz = nat (max (sint (offset + sz)) 0)"

definition query_nonempty :: "u64 \<Rightarrow> u64 \<Rightarrow> bool" where
  "query_nonempty offset sz \<longleftrightarrow>
     query_start offset < 4194304 \<and> query_start offset < query_end offset sz"

definition page_in_range :: "u64 \<Rightarrow> u64 \<Rightarrow> nat \<Rightarrow> bool" where
  "page_in_range offset sz p \<longleftrightarrow>
     p < 1024 \<and> query_start offset < query_end offset sz \<and>
     query_start offset < (p + 1) * 4096 \<and> p * 4096 < query_end offset sz"

definition first_word :: "u64 \<Rightarrow> u64 \<Rightarrow> nat" where
  "first_word offset sz = (if query_nonempty offset sz then query_start offset div 262144 else 0)"

definition end_word :: "u64 \<Rightarrow> u64 \<Rightarrow> nat" where
  "end_word offset sz =
     (if query_nonempty offset sz then min 16 ((query_end offset sz + 262143) div 262144) else 0)"

definition word_mask :: "u64 \<Rightarrow> u64 \<Rightarrow> nat \<Rightarrow> u64" where
  "word_mask offset sz w =
     (if query_nonempty offset sz
      then page_bits (query_start offset div 4096 - 64 * w)
             ((query_end offset sz + 4095) div 4096 - 64 * w)
      else 0)"

lemma floor_page_le: "(S div 4096 \<le> k) = (S < (k + 1) * 4096)" for S k :: nat
  by (metis Suc_eq_plus1 div_less_iff_less_mult less_Suc_eq_le zero_less_numeral)

lemma less_ceil_page: "(k < (E + 4095) div 4096) = (k * 4096 < E)" for E k :: nat
proof -
  have "(k < (E + 4095) div 4096) = (Suc k \<le> (E + 4095) div 4096)" by auto
  also have "\<dots> = (Suc k * 4096 \<le> E + 4095)"
    by (simp add: less_eq_div_iff_mult_less_eq)
  also have "\<dots> = (k * 4096 < E)" by auto
  finally show ?thesis .
qed

lemma unat_max_s64_0: "unat (max_s64_0 x) = nat (max (sint x) 0)"
proof -
  have "sint x < 2 ^ 63" using sint_lt[of x] by simp
  then have "max (sint x) 0 < 2 ^ 64" by simp
  moreover have "0 \<le> max (sint x) 0" by simp
  ultimately have "uint (word_of_int (max (sint x) 0) :: u64) = max (sint x) 0"
    by (simp add: uint_word_of_int)
  then show ?thesis by (simp add: max_s64_0_def unat_eq_nat_uint)
qed

lemma query_end_less: "query_end offset sz < 2 ^ 63"
  using sint_lt[of "offset + sz"] by (simp add: query_end_def)

lemma first_word_le_end_word: "first_word offset sz \<le> end_word offset sz"
  unfolding first_word_def end_word_def query_nonempty_def by auto

lemma end_word_le: "end_word offset sz \<le> 16"
  unfolding end_word_def by simp

lemma first_word_less_end_word:
  "query_nonempty offset sz \<Longrightarrow> first_word offset sz < end_word offset sz"
  unfolding first_word_def end_word_def query_nonempty_def by auto

lemma bit_word_mask:
  assumes "w < 16"
  shows "bit (word_mask offset sz w) b \<longleftrightarrow> b < 64 \<and> page_in_range offset sz (64 * w + b)"
proof (cases "query_nonempty offset sz")
  case True
  have lt: "query_start offset < query_end offset sz"
    using True by (simp add: query_nonempty_def)
  have wm: "word_mask offset sz w = page_bits (query_start offset div 4096 - 64 * w)
             ((query_end offset sz + 4095) div 4096 - 64 * w)"
    using True by (simp add: word_mask_def)
  have lo: "query_start offset div 4096 - 64 * w \<le> b
      \<longleftrightarrow> query_start offset < (64 * w + b + 1) * 4096"
    using floor_page_le[of "query_start offset" "64 * w + b"] by auto
  have hi: "b < (query_end offset sz + 4095) div 4096 - 64 * w
      \<longleftrightarrow> (64 * w + b) * 4096 < query_end offset sz"
    using less_ceil_page[of "64 * w + b" "query_end offset sz"] by auto
  show ?thesis
  proof (cases "b < 64")
    case b: True
    then have "64 * w + b < 1024" using assms by simp
    then show ?thesis
      unfolding wm bit_page_bits page_in_range_def lo hi using lt b by simp
  next
    case False
    then show ?thesis unfolding wm bit_page_bits by simp
  qed
next
  case False
  have "\<not> page_in_range offset sz (64 * w + b)" if "b < 64"
  proof
    assume p: "page_in_range offset sz (64 * w + b)"
    then have "query_start offset < 4194304"
      using assms that unfolding page_in_range_def by simp
    with p False show False unfolding page_in_range_def query_nonempty_def by simp
  qed
  with False show ?thesis unfolding word_mask_def by auto
qed


lemma split_word_page:
  "a div 262144 = (a div 4096) div 64" "(a mod 262144) div 4096 = (a div 4096) mod 64"
  for a :: nat
proof -
  show "a div 262144 = (a div 4096) div 64"
    using div_mult2_eq[of a 4096 64] by simp
  have "a mod (4096 * 64) = 4096 * (a div 4096 mod 64) + a mod 4096"
    by (rule mod_mult2_eq)
  then have "(a mod 262144) div 4096 = (4096 * (a div 4096 mod 64) + a mod 4096) div 4096"
    by simp
  also have "\<dots> = a div 4096 mod 64" by simp
  finally show "(a mod 262144) div 4096 = (a div 4096) mod 64" .
qed

lemma page_bits_min: "page_bits lo (min 64 hi) = page_bits lo hi"
  by (rule bit_word_eqI) (auto simp: bit_page_bits)

lemma loop_mask_eq:
  assumes "ps div 64 \<le> w" "w < 16" "64 * w < pe"
    and V: "V = pe mod 64 + 64 * min (pe div 64) 16"
  shows "page_bits (if w = ps div 64 then ps mod 64 else 0) (min 64 (V - 64 * w))
         = page_bits (ps - 64 * w) (pe - 64 * w)"
proof -
  have lo: "(if w = ps div 64 then ps mod 64 else 0) = ps - 64 * w"
  proof (cases "w = ps div 64")
    case True
    then show ?thesis by (simp add: minus_mult_div_eq_mod)
  next
    case False
    with assms(1) have "Suc (ps div 64) \<le> w" by simp
    then have "64 * Suc (ps div 64) \<le> 64 * w" by simp
    moreover have "ps < 64 * Suc (ps div 64)"
      using mult_div_mod_eq[of 64 ps] mod_less_divisor[of 64 ps] by simp
    ultimately show ?thesis using False by simp
  qed
  have hi: "min 64 (V - 64 * w) = min 64 (pe - 64 * w)"
  proof (cases "pe div 64 < 16")
    case True
    then have "V = pe" using V mult_div_mod_eq[of 64 pe] by (simp add: min_def)
    then show ?thesis by simp
  next
    case False
    then have "V = pe mod 64 + 1024" using V by (simp add: min_def)
    then have "64 \<le> V - 64 * w" using assms(2) by simp
    moreover have "1024 \<le> pe" using False mult_div_mod_eq[of 64 pe] by simp
    then have "64 \<le> pe - 64 * w" using assms(2) by simp
    ultimately show ?thesis by simp
  qed
  show ?thesis
    unfolding lo using hi page_bits_min[of "ps - 64 * w" "V - 64 * w"]
      page_bits_min[of "ps - 64 * w" "pe - 64 * w"] by simp
qed


lemma unat_min: "unat (min a b) = min (unat a) (unat b)" for a b :: u64
  by (simp add: min_def word_le_nat_alt)

lemma end_page_virtual: "b \<le> a \<Longrightarrow> r + (a - b) * 64 + 64 * b = r + 64 * (a::nat)"
  by linarith

lemma IterateWords_empty:
  "\<not> query_nonempty offset sz \<Longrightarrow> IterateWords offset sz func s = Some s"
  unfolding IterateWords_def query_nonempty_def query_start_def query_end_def
  by (simp add: Let_def word_le_nat_alt unat_max_s64_0 consts_simps) linarith

lemma IterateWords_rule:
  fixes func :: "nat \<Rightarrow> u64 \<Rightarrow> 's \<Rightarrow> (bool \<times> 's) option"
  assumes init: "I (first_word offset sz) s"
    and step: "\<And>w s. first_word offset sz \<le> w \<Longrightarrow> w < end_word offset sz \<Longrightarrow> I w s \<Longrightarrow>
            \<exists>b s'. func w (word_mask offset sz w) s = Some (b, s')
                    \<and> (if b then Q s' else I (Suc w) s')"
  shows "\<exists>s'. IterateWords offset sz func s = Some s' \<and> (Q s' \<or> I (end_word offset sz) s')"
proof (cases "query_nonempty offset sz")
  case False
  then show ?thesis
    using init by (simp add: IterateWords_empty first_word_def end_word_def)
next
  case True
  define S where "S = query_start offset"
  define E where "E = query_end offset sz"
  define ps where "ps = S div 4096"
  define pe where "pe = (E + 4095) div 4096"
  define start where "start = max_s64_0 offset"
  define en where "en = max_s64_0 (offset + sz)"
  have uS: "unat start = S" and uE: "unat en = E"
    by (simp_all add: start_def en_def S_def E_def unat_max_s64_0 query_start_def query_end_def)
  have S1: "S < 4194304" and SE: "S < E"
    using True by (simp_all add: query_nonempty_def S_def E_def)
  have E63: "E < 2 ^ 63" unfolding E_def by (rule query_end_less)
  have cond: "\<not> (HIGHER_PAGE_SIZE \<le> start \<or> en \<le> start)"
    using S1 SE by (simp add: word_le_nat_alt uS uE consts_simps)
  define sw where "sw = start div 262144"
  define spg where "spg = (start mod 262144) div 4096"
  define e2 where "e2 = en + 4096 - 1"
  define ewr where "ewr = e2 div 262144"
  define epr where "epr = (e2 mod 262144) div 4096"
  define ewc where "ewc = min ewr 16"
  define diff where "diff = ewc - sw"
  define add1 where "add1 = (epr + 64 - 1) div 64"
  define ewf where "ewf = min (ewc + add1) 16"
  define ep2 where "ep2 = epr + diff * 64"
  have usw: "unat sw = ps div 64"
    by (simp add: sw_def unat_div uS ps_def split_word_page)
  have uspg: "unat spg = ps mod 64"
    by (simp add: spg_def unat_div unat_mod uS ps_def split_word_page)
  have e2: "e2 = en + 4095" by (simp add: e2_def)
  have "unat en + unat (4095 :: u64) < 2 ^ 64" using E63 uE by simp
  then have ue2: "unat e2 = E + 4095"
    unfolding e2 using uE unat_add_lem[of en 4095] by simp
  have uewr: "unat ewr = pe div 64"
    by (simp add: ewr_def unat_div ue2 pe_def split_word_page)
  have uepr: "unat epr = pe mod 64"
    by (simp add: epr_def unat_div unat_mod ue2 pe_def split_word_page)
  have ps_lt: "ps < 1024" using S1 by (simp add: ps_def div_less_iff_less_mult)
  then have sw16: "ps div 64 < 16" by (simp add: div_less_iff_less_mult)
  have ps_pe: "ps < pe"
  proof -
    have "ps * 4096 \<le> S" by (simp add: ps_def)
    then have "ps * 4096 < E" using SE by simp
    then show ?thesis by (simp add: pe_def less_ceil_page)
  qed
  have uewc: "unat ewc = min (pe div 64) 16"
    by (simp add: ewc_def unat_min uewr)
  have sw_le_ewc: "ps div 64 \<le> min (pe div 64) 16"
    using ps_pe sw16 by (simp add: div_le_mono)
  then have "sw \<le> ewc" by (simp add: word_le_nat_alt usw uewc)
  then have udiff: "unat diff = min (pe div 64) 16 - ps div 64"
    by (simp add: diff_def unat_sub_le usw uewc)
  have epr63: "unat epr \<le> 63" using uepr mod_less_divisor[of 64 pe] by simp
  have "unat (63 :: u64) + unat epr < 2 ^ 64" using epr63 by simp
  then have "unat (63 + epr) = unat epr + 63"
    using unat_add_lem[of 63 epr] by simp
  then have uadd: "unat add1 = (pe mod 64 + 63) div 64"
    by (simp add: add1_def unat_div uepr)
  have "(pe mod 64 + 63) div 64 < 2"
    using epr63 uepr by (simp add: div_less_iff_less_mult)
  then have add_le: "(pe mod 64 + 63) div 64 \<le> 1" by simp
  have m16: "min (pe div 64) 16 \<le> (16::nat)" by simp
  have "unat ewc + unat add1 \<le> 17"
    using add_mono[OF m16 add_le] uewc uadd by simp
  then have "unat ewc + unat add1 < 2 ^ 64"
    by simp
  then have uew2: "unat (ewc + add1) = min (pe div 64) 16 + (pe mod 64 + 63) div 64"
    using unat_add_lem[of ewc add1] uewc uadd by simp
  have uewf: "unat ewf = min (min (pe div 64) 16 + (pe mod 64 + 63) div 64) 16"
    by (simp add: ewf_def unat_min uew2)
  have d16: "unat diff \<le> 16" using udiff m16 by simp
  then have "unat diff * unat (64 :: u64) \<le> 1024" by simp
  then have "unat diff * unat (64 :: u64) < 2 ^ 64" by simp
  then have "unat (diff * 64) = unat diff * 64"
    using unat_mult_lem[of diff 64] by simp
  moreover have "unat epr + unat diff * 64 \<le> 63 + 1024" using epr63 d16 by simp
  then have "unat epr + unat diff * 64 < 2 ^ 64" by simp
  ultimately have uep2: "unat ep2 = pe mod 64 + (min (pe div 64) 16 - ps div 64) * 64"
    using unat_add_lem[of epr "diff * 64"] uepr udiff by (simp add: ep2_def)
  define V where "V = pe mod 64 + 64 * min (pe div 64) 16"
  have V: "unat ep2 + 64 * unat sw = V"
    unfolding uep2 usw V_def using sw_le_ewc by (rule end_page_virtual)
  have ewf_end: "unat ewf = end_word offset sz"
  proof -
    have "(E + 262143) div 262144 = (pe + 63) div 64"
    proof -
      have "(E + 262143) div 262144 = ((E + 4095) + 63 * 4096) div 4096 div 64"
        using split_word_page(1)[of "E + 262143"] by simp
      then show ?thesis by (simp add: pe_def)
    qed
    moreover have "min (min (pe div 64) 16 + (pe mod 64 + 63) div 64) 16 = min 16 ((pe + 63) div 64)"
    proof -
      have d: "(pe + 63) div 64 = pe div 64 + (pe mod 64 + 63) div 64"
        using div_add1_eq[of pe 63 64] by simp
      show ?thesis unfolding d using add_le by (simp add: min_def)
    qed
    ultimately show ?thesis using True uewf by (simp add: end_word_def E_def)
  qed
  have sw_first: "unat sw = first_word offset sz"
    using True usw by (simp add: first_word_def ps_def S_def split_word_page)
  have sw_lt_ewf: "sw < ewf"
    using first_word_less_end_word[OF True] sw_first ewf_end by (simp add: word_less_nat_alt)
  have last: "64 * (unat ewf - 1) < V"
  proof -
    have "unat ewf \<le> min (pe div 64) 16 + (pe mod 64 + 63) div 64" using uewf by simp
    moreover have "(pe mod 64 + 63) div 64 = 1 \<Longrightarrow> 0 < pe mod 64"
      by (rule ccontr) simp
    moreover have "0 < min (pe div 64) 16 \<or> 0 < pe mod 64"
      using ps_pe mult_div_mod_eq[of 64 pe] by (cases "pe div 64 = 0") auto
    ultimately show ?thesis using add_le unfolding V_def
      by (cases "(pe mod 64 + 63) div 64 = 1") auto
  qed
  have unfold: "IterateWords offset sz func s = IterateWords_loop func ewf sw spg ep2 s"
  proof -
    have "min sw 16 = sw" using sw16 usw by (simp add: min_def word_le_nat_alt)
    then show ?thesis
      using cond unfolding IterateWords_def GetWordPage_def ewf_def add1_def ep2_def diff_def
      by (simp add: Let_def consts_simps start_def [symmetric] en_def [symmetric]
            sw_def [symmetric] spg_def [symmetric] e2_def [symmetric] ewr_def [symmetric]
            epr_def [symmetric] ewc_def [symmetric])
  qed
  have "\<exists>s'. IterateWords_loop func ewf sw spg ep2 s = Some s' \<and> (Q s' \<or> I (unat ewf) s')"
  proof (rule IterateWords_loop_rule[where V = V and I = I and Q = Q, OF refl])
    show "sw \<le> ewf" using sw_lt_ewf by simp
    show "spg < 64" using uspg mod_less_divisor[of 64 ps] by (simp add: word_less_nat_alt)
    show "unat ep2 + 64 * unat sw = V" by (rule V)
    show "64 * (unat ewf - 1) < V" by (rule last)
    show "I (unat sw) s" using init sw_first by simp
    fix w s
    assume a: "unat sw \<le> w" "w < unat ewf" "I w s"
    have w16: "w < 16" using a(2) ewf_end end_word_le[of offset sz] by simp
    have "64 * w < pe"
    proof -
      have "w < (pe + 63) div 64"
      proof -
        have "min (pe div 64) 16 + (pe mod 64 + 63) div 64
                \<le> pe div 64 + (pe mod 64 + 63) div 64" by simp
        moreover have "w < min (pe div 64) 16 + (pe mod 64 + 63) div 64"
          using a(2) uewf by simp
        ultimately have "w < pe div 64 + (pe mod 64 + 63) div 64" by (rule less_le_trans[rotated])
        then show ?thesis using div_add1_eq[of pe 63 64] by simp
      qed
      then have "Suc w \<le> (pe + 63) div 64" by simp
      then have "Suc w * 64 \<le> pe + 63" by (simp add: less_eq_div_iff_mult_less_eq)
      then show ?thesis by simp
    qed
    then have "page_bits (if w = ps div 64 then ps mod 64 else 0) (min 64 (V - 64 * w))
         = page_bits (ps - 64 * w) (pe - 64 * w)"
      using a(1) usw w16 by (intro loop_mask_eq) (simp_all add: V_def)
    also have "\<dots> = word_mask offset sz w"
      using True by (simp add: word_mask_def ps_def pe_def S_def E_def)
    finally have "page_bits (if w = unat sw then unat spg else 0) (min 64 (V - 64 * w))
       = word_mask offset sz w" unfolding usw uspg .
    then show "\<exists>b s'. func w (page_bits (if w = unat sw then unat spg else 0) (min 64 (V - 64 * w))) s
                  = Some (b, s') \<and> (if b then Q s' else I (Suc w) s')"
      using step[of w s] a sw_first ewf_end by simp
  qed
  then show ?thesis using unfold ewf_end by simp
qed


section \<open>The state of single pages\<close>

definition page_bit :: "u64 list \<Rightarrow> nat \<Rightarrow> bool" where
  "page_bit ws p \<longleftrightarrow> bit (ws ! (p div 64)) (p mod 64)"

definition cpu_modified :: "RegionManager \<Rightarrow> nat \<Rightarrow> bool" where
  "cpu_modified r p = page_bit (cpu r) p"

definition gpu_modified :: "RegionManager \<Rightarrow> nat \<Rightarrow> bool" where
  "gpu_modified r p = page_bit (gpu r) p"

lemma first_page_in_range:
  assumes "query_nonempty offset sz"
  shows "page_in_range offset sz (query_start offset div 4096)"
proof -
  let ?p = "query_start offset div 4096"
  have "?p * 4096 \<le> query_start offset" by simp
  moreover have "query_start offset < (?p + 1) * 4096"
    using floor_page_le[of "query_start offset" ?p] by simp
  moreover have "?p < 1024"
    using assms by (simp add: query_nonempty_def div_less_iff_less_mult)
  ultimately show ?thesis
    using assms unfolding page_in_range_def query_nonempty_def by simp
qed

lemma first_word_mask_nonzero:
  assumes "query_nonempty offset sz"
  shows "word_mask offset sz (first_word offset sz) \<noteq> 0"
proof -
  let ?p = "query_start offset div 4096"
  have w: "first_word offset sz = ?p div 64"
    using assms by (simp add: first_word_def split_word_page)
  have "first_word offset sz < 16"
    using first_word_less_end_word[OF assms] end_word_le[of offset sz] by simp
  then have "bit (word_mask offset sz (first_word offset sz)) (?p mod 64)"
    using first_page_in_range[OF assms] by (simp add: bit_word_mask w)
  then show ?thesis by auto
qed

lemma sint_small: "unat w < 2 ^ 63 \<Longrightarrow> sint w = int (unat w)" for w :: u64
proof -
  assume a: "unat w < 2 ^ 63"
  then have "int (unat w) < int (2 ^ 63)" by (rule iffD2[OF of_nat_less_iff])
  then have u: "uint w < 2 ^ 63" by simp
  have "- ((2::int) ^ 63) \<le> 0" by simp
  also have "0 \<le> uint w" by simp
  finally have l: "- (2 ^ 63) \<le> uint w" .
  have "signed_take_bit 63 (uint w) = uint w"
    using l u by (rule signed_take_bit_int_eq_self)
  then show ?thesis by (simp add: sint_uint)
qed

lemma in_range_query:
  assumes "0 < sz" "unat offset + unat sz \<le> 4194304"
  shows "query_start offset = unat offset" "query_end offset sz = unat offset + unat sz"
    "query_nonempty offset sz"
proof -
  have o: "unat offset < 2 ^ 63" using assms(2) by simp
  have "unat offset + unat sz < 2 ^ 64" using assms(2) by simp
  then have sum: "unat (offset + sz) = unat offset + unat sz"
    using unat_add_lem[of offset sz] by simp
  then have os: "unat (offset + sz) < 2 ^ 63" using assms(2) by simp
  have s1: "sint offset = int (unat offset)"
    using o by (rule sint_small)
  have s2: "sint (offset + sz) = int (unat (offset + sz))"
    using os by (rule sint_small)
  show qs: "query_start offset = unat offset"
    by (simp add: query_start_def s1)
  have "query_end offset sz = nat (max (int (unat (offset + sz))) 0)"
    by (simp only: query_end_def s2)
  also have "\<dots> = unat (offset + sz)" by simp
  finally show qe: "query_end offset sz = unat offset + unat sz"
    using sum by simp
  have "0 < unat sz" using assms(1) by (simp add: unat_gt_0)
  then show "query_nonempty offset sz"
    using assms(2) by (simp add: query_nonempty_def qs qe)
qed


definition wf_region :: "RegionManager \<Rightarrow> bool" where
  "wf_region r \<longleftrightarrow> length (cpu r) = 16 \<and> length (gpu r) = 16
     \<and> length (write_bits r) = 16 \<and> length (read_bits r) = 16"

lemma wf_new: "wf_region (RegionManager_new base)"
  by (simp add: wf_region_def RegionManager_new_def consts_simps)

lemma new_words:
  "w < 16 \<Longrightarrow> word_at (cpu (RegionManager_new base)) w = Some (NOT 0)"
  "w < 16 \<Longrightarrow> word_at (gpu (RegionManager_new base)) w = Some 0"
  by (simp_all add: word_at_def RegionManager_new_def consts_simps)

lemma fresh_pages:
  assumes "p < 1024"
  shows "cpu_modified (RegionManager_new base) p" "\<not> gpu_modified (RegionManager_new base) p"
proof -
  have "p div 64 < 16" using assms by (simp add: div_less_iff_less_mult)
  then show "cpu_modified (RegionManager_new base) p" "\<not> gpu_modified (RegionManager_new base) p"
    by (simp_all add: cpu_modified_def gpu_modified_def page_bit_def RegionManager_new_def
          consts_simps bit_simps)
qed

lemma fresh_cpu_modified:
  assumes "query_nonempty offset sz"
  shows "IsRegionModified CPU (RegionManager_new base) offset sz = Some True"
proof -
  let ?f = "\<lambda>index msk result. do {
          state_word \<leftarrow> word_at (Span CPU (RegionManager_new base)) index;
          let word = state_word AND msk;
          if word \<noteq> 0 then Some (True, True) else Some (False, result)
        }"
  have "\<exists>s'. IterateWords offset sz ?f False = Some s'
          \<and> (s' = True \<or> (end_word offset sz = first_word offset sz \<and> s' = False))"
  proof (rule IterateWords_rule[where I = "\<lambda>w s. w = first_word offset sz \<and> s = False"
                                  and Q = "\<lambda>s. s = True"])
    show "first_word offset sz = first_word offset sz \<and> False = False" by simp
    fix w s
    assume a: "w < end_word offset sz" "w = first_word offset sz \<and> s = False"
    then have "w < 16" using end_word_le[of offset sz] by simp
    moreover have "word_mask offset sz w \<noteq> 0"
      using a first_word_mask_nonzero[OF assms] by simp
    ultimately show "\<exists>b s'. ?f w (word_mask offset sz w) s = Some (b, s')
        \<and> (if b then s' = True else Suc w = first_word offset sz \<and> s' = False)"
      by (auto simp: Span_def new_words)
  qed
  then show ?thesis
    using first_word_less_end_word[OF assms] by (auto simp: IsRegionModified_def)
qed

lemma fresh_gpu_unmodified:
  "IsRegionModified GPU (RegionManager_new base) offset sz = Some False"
proof -
  let ?f = "\<lambda>index msk result. do {
          state_word \<leftarrow> word_at (Span GPU (RegionManager_new base)) index;
          let word = state_word AND msk;
          if word \<noteq> 0 then Some (True, True) else Some (False, result)
        }"
  have "\<exists>s'. IterateWords offset sz ?f False = Some s' \<and> (False \<or> s' = False)"
  proof (rule IterateWords_rule[where I = "\<lambda>w s. s = False" and Q = "\<lambda>s. False"])
    show "False = False" by simp
    fix w s
    assume a: "w < end_word offset sz" "s = False"
    then have "w < 16" using end_word_le[of offset sz] by simp
    then show "\<exists>b s'. ?f w (word_mask offset sz w) s = Some (b, s')
        \<and> (if b then False else s' = False)"
      using a by (auto simp: Span_def new_words)
  qed
  then show ?thesis by (auto simp: IsRegionModified_def)
qed

text \<open>Claim C9. Right after \<open>RegionManager(tracker, cpu_addr)\<close> every page of the region
  is CPU-modified and no page is GPU-modified: \<open>IsRegionModified<CPU>\<close> answers true and
  \<open>IsRegionModified<GPU>\<close> answers false for every non-empty query that lies in the
  region.\<close>

theorem fresh_region_modified:
  assumes "0 < sz" "unat offset + unat sz \<le> unat HIGHER_PAGE_SIZE"
  shows "IsRegionModified CPU (RegionManager_new base) offset sz = Some True
       \<and> IsRegionModified GPU (RegionManager_new base) offset sz = Some False
       \<and> (\<forall>p < 1024. cpu_modified (RegionManager_new base) p
                      \<and> \<not> gpu_modified (RegionManager_new base) p)"
  using assms fresh_cpu_modified[OF in_range_query(3)] fresh_gpu_unmodified fresh_pages
  by (simp add: consts_simps)

theorem fresh_region_modified_witness:
  "(0::u64) < 8192 \<and> unat (4096::u64) + unat (8192::u64) \<le> unat HIGHER_PAGE_SIZE
   \<and> IsRegionModified CPU (RegionManager_new 0x10000000) 4096 8192 = Some True
   \<and> IsRegionModified GPU (RegionManager_new 0x10000000) 4096 8192 = Some False
   \<and> cpu_modified (RegionManager_new 0x10000000) 1023
   \<and> \<not> gpu_modified (RegionManager_new 0x10000000) 1023"
proof -
  have h: "(0::u64) < 8192" "unat (4096::u64) + unat (8192::u64) \<le> unat HIGHER_PAGE_SIZE"
    by (simp_all add: consts_simps)
  from fresh_region_modified[OF h, of "0x10000000"] h show ?thesis by simp
qed


section \<open>The operations in closed form\<close>

type_synonym word_op = "u64 \<Rightarrow> u64 \<Rightarrow> u64"

definition upd4 :: "word_op \<Rightarrow> word_op \<Rightarrow> word_op \<Rightarrow> word_op \<Rightarrow> nat \<Rightarrow> u64
    \<Rightarrow> RegionManager \<Rightarrow> RegionManager" where
  "upd4 fc fg fw fr i m r =
     r\<lparr>cpu := (cpu r)[i := fc (cpu r ! i) m],
       gpu := (gpu r)[i := fg (gpu r ! i) m],
       write_bits := (write_bits r)[i := fw (write_bits r ! i) m],
       read_bits := (read_bits r)[i := fr (read_bits r ! i) m]\<rparr>"

definition masked_upto :: "word_op \<Rightarrow> u64 \<Rightarrow> u64 \<Rightarrow> nat \<Rightarrow> u64 list \<Rightarrow> u64 list" where
  "masked_upto f offset sz n ws =
     map (\<lambda>i. if first_word offset sz \<le> i \<and> i < n
               then f (ws ! i) (word_mask offset sz i) else ws ! i) [0..<length ws]"

definition region_upto :: "word_op \<Rightarrow> word_op \<Rightarrow> word_op \<Rightarrow> word_op \<Rightarrow> u64 \<Rightarrow> u64 \<Rightarrow> nat
    \<Rightarrow> RegionManager \<Rightarrow> RegionManager" where
  "region_upto fc fg fw fr offset sz n r =
     r\<lparr>cpu := masked_upto fc offset sz n (cpu r),
       gpu := masked_upto fg offset sz n (gpu r),
       write_bits := masked_upto fw offset sz n (write_bits r),
       read_bits := masked_upto fr offset sz n (read_bits r)\<rparr>"

lemma length_masked_upto [simp]: "length (masked_upto f offset sz n ws) = length ws"
  by (simp add: masked_upto_def)

lemma nth_masked_upto:
  "i < length ws \<Longrightarrow> masked_upto f offset sz n ws ! i =
     (if first_word offset sz \<le> i \<and> i < n then f (ws ! i) (word_mask offset sz i) else ws ! i)"
  by (simp add: masked_upto_def)

lemma masked_upto_first: "masked_upto f offset sz (first_word offset sz) ws = ws"
  by (rule nth_equalityI) (auto simp: nth_masked_upto)

lemma masked_upto_Suc:
  assumes "first_word offset sz \<le> w" "w < length ws"
  shows "(masked_upto f offset sz w ws)[w := f (masked_upto f offset sz w ws ! w) (word_mask offset sz w)]
         = masked_upto f offset sz (Suc w) ws"
  using assms by (intro nth_equalityI) (auto simp: nth_masked_upto nth_list_update)

lemma wf_region_upto [simp]:
  "wf_region (region_upto fc fg fw fr offset sz n r) = wf_region r"
  by (simp add: wf_region_def region_upto_def)

lemma cpu_addr_region_upto [simp]:
  "cpu_addr (region_upto fc fg fw fr offset sz n r) = cpu_addr r"
  by (simp add: region_upto_def)

lemma region_upto_first: "region_upto fc fg fw fr offset sz (first_word offset sz) r = r"
  by (simp add: region_upto_def masked_upto_first)

lemma region_upto_Suc:
  assumes "first_word offset sz \<le> w" "w < 16" "wf_region r"
  shows "upd4 fc fg fw fr w (word_mask offset sz w) (region_upto fc fg fw fr offset sz w r)
         = region_upto fc fg fw fr offset sz (Suc w) r"
  using assms unfolding upd4_def region_upto_def wf_region_def
  by (simp add: masked_upto_Suc)

lemma region_upto_words:
  assumes "w < 16" "wf_region r"
  shows "cpu (region_upto fc fg fw fr offset sz w r) ! w = cpu r ! w"
    "gpu (region_upto fc fg fw fr offset sz w r) ! w = gpu r ! w"
    "write_bits (region_upto fc fg fw fr offset sz w r) ! w = write_bits r ! w"
    "read_bits (region_upto fc fg fw fr offset sz w r) ! w = read_bits r ! w"
  using assms unfolding region_upto_def wf_region_def
  by (simp_all add: nth_masked_upto)

lemma IterateWords_words:
  fixes func :: "nat \<Rightarrow> u64 \<Rightarrow> RegionManager \<times> 'x \<Rightarrow> (bool \<times> RegionManager \<times> 'x) option"
  assumes step: "\<And>i m r x. i < 16 \<Longrightarrow> wf_region r \<Longrightarrow>
      func i m (r, x) = Some (False, upd4 fc fg fw fr i m r,
          h (cpu_addr r) i m (cpu r ! i) (gpu r ! i) (write_bits r ! i) (read_bits r ! i) x)"
    and wf: "wf_region r"
  shows "IterateWords offset sz func (r, x) =
     Some (region_upto fc fg fw fr offset sz (end_word offset sz) r,
           fold (\<lambda>i. h (cpu_addr r) i (word_mask offset sz i)
                        (cpu r ! i) (gpu r ! i) (write_bits r ! i) (read_bits r ! i))
             [first_word offset sz..<end_word offset sz] x)"
proof -
  let ?H = "\<lambda>i. h (cpu_addr r) i (word_mask offset sz i)
                        (cpu r ! i) (gpu r ! i) (write_bits r ! i) (read_bits r ! i)"
  let ?I = "\<lambda>w s. s = (region_upto fc fg fw fr offset sz w r,
                         fold ?H [first_word offset sz..<w] x)"
  have "\<exists>s'. IterateWords offset sz func (r, x) = Some s' \<and> (False \<or> ?I (end_word offset sz) s')"
  proof (rule IterateWords_rule[where I = ?I and Q = "\<lambda>s. False"])
    show "?I (first_word offset sz) (r, x)" by (simp add: region_upto_first)
    fix w s
    assume a: "first_word offset sz \<le> w" "w < end_word offset sz" "?I w s"
    have w16: "w < 16" using a(2) end_word_le[of offset sz] by simp
    have "func w (word_mask offset sz w) s = Some (False, region_upto fc fg fw fr offset sz (Suc w) r,
            fold ?H [first_word offset sz..<Suc w] x)"
      using a(1,3) w16 wf
      by (simp add: step region_upto_Suc region_upto_words)
    then show "\<exists>b s'. func w (word_mask offset sz w) s = Some (b, s')
        \<and> (if b then False else ?I (Suc w) s')"
      by (intro exI[of _ False] exI[of _ "(region_upto fc fg fw fr offset sz (Suc w) r,
            fold ?H [first_word offset sz..<Suc w] x)"]) (simp only: if_False simp_thms)
  qed
  then show ?thesis by auto
qed


definition set_bits :: word_op where "set_bits x m = x OR m"
definition clear_bits :: word_op where "clear_bits x m = x AND NOT m"
definition keep_bits :: word_op where "keep_bits x m = x"

definition crs_cpu_op :: "Type \<Rightarrow> bool \<Rightarrow> word_op" where
  "crs_cpu_op t d = (case t of CPU \<Rightarrow> if d then set_bits else clear_bits | GPU \<Rightarrow> keep_bits)"
definition crs_gpu_op :: "Type \<Rightarrow> bool \<Rightarrow> word_op" where
  "crs_gpu_op t d = (case t of CPU \<Rightarrow> keep_bits | GPU \<Rightarrow> if d then set_bits else clear_bits)"
definition crs_write_op :: "Type \<Rightarrow> bool \<Rightarrow> word_op" where
  "crs_write_op t d = (case t of CPU \<Rightarrow> if d then set_bits else clear_bits | GPU \<Rightarrow> clear_bits)"
definition crs_read_op :: "Type \<Rightarrow> bool \<Rightarrow> word_op" where
  "crs_read_op t d = (case t of CPU \<Rightarrow> keep_bits | GPU \<Rightarrow> if d then clear_bits else set_bits)"

definition crs_calls :: "Type \<Rightarrow> bool \<Rightarrow> VAddr \<Rightarrow> nat \<Rightarrow> u64 \<Rightarrow> u64 \<Rightarrow> u64 \<Rightarrow> u64 \<Rightarrow> u64
    \<Rightarrow> call list \<Rightarrow> call list" where
  "crs_calls t d base i m c g w rd cs =
     (case t of
        CPU \<Rightarrow> UpdateProtection (\<not> d) False base i w m cs
      | GPU \<Rightarrow> UpdateProtection d True base i rd m (UpdateProtection True False base i w m cs))"

lemma ChangeRegionState_word_eq:
  assumes "i < 16" "wf_region r"
  shows "ChangeRegionState_word t d i m (r, cs) =
     Some (upd4 (crs_cpu_op t d) (crs_gpu_op t d) (crs_write_op t d) (crs_read_op t d) i m r,
           crs_calls t d (cpu_addr r) i m (cpu r ! i) (gpu r ! i) (write_bits r ! i) (read_bits r ! i) cs)"
  using assms unfolding ChangeRegionState_word_def wf_region_def
  by (cases t; cases d)
     (simp_all add: word_at_def modify_at_def upd4_def crs_cpu_op_def crs_gpu_op_def
        crs_write_op_def crs_read_op_def crs_calls_def set_bits_def clear_bits_def keep_bits_def)

definition region_after :: "word_op \<Rightarrow> word_op \<Rightarrow> word_op \<Rightarrow> word_op \<Rightarrow> u64 \<Rightarrow> u64
    \<Rightarrow> RegionManager \<Rightarrow> RegionManager" where
  "region_after fc fg fw fr offset sz r = region_upto fc fg fw fr offset sz (end_word offset sz) r"

lemma ChangeRegionState_eq:
  assumes "wf_region r"
  shows "ChangeRegionState t d addr sz (r, cs) =
     Some (region_after (crs_cpu_op t d) (crs_gpu_op t d) (crs_write_op t d) (crs_read_op t d)
             (addr - cpu_addr r) sz r,
           fold (\<lambda>i. crs_calls t d (cpu_addr r) i (word_mask (addr - cpu_addr r) sz i)
                        (cpu r ! i) (gpu r ! i) (write_bits r ! i) (read_bits r ! i))
             [first_word (addr - cpu_addr r) sz..<end_word (addr - cpu_addr r) sz] cs)"
  unfolding ChangeRegionState_def region_after_def fst_conv
  by (rule IterateWords_words[OF _ assms]) (simp add: ChangeRegionState_word_eq)


lemma page_word_less: "p < 1024 \<Longrightarrow> p div 64 < 16" for p :: nat
  by (simp add: div_less_iff_less_mult)

lemma in_range_word:
  assumes "page_in_range offset sz p"
  shows "first_word offset sz \<le> p div 64" "p div 64 < end_word offset sz"
proof -
  let ?S = "query_start offset" and ?E = "query_end offset sz"
  from assms have p: "p < 1024" and SE: "?S < ?E" and lo: "?S < (p + 1) * 4096"
    and hi: "p * 4096 < ?E"
    by (simp_all add: page_in_range_def)
  have "(p + 1) * 4096 \<le> 1024 * 4096" using p by simp
  then have ne: "query_nonempty offset sz"
    using SE lo by (simp add: query_nonempty_def)
  have "?S div 4096 \<le> p" using lo by (simp add: floor_page_le)
  then have "?S div 4096 div 64 \<le> p div 64" by (rule div_le_mono)
  then show "first_word offset sz \<le> p div 64"
    using ne by (simp add: first_word_def split_word_page)
  have "p < (?E + 4095) div 4096" using hi by (simp add: less_ceil_page)
  then have "p + 64 \<le> (?E + 4095) div 4096 + 63" by simp
  then have "(p + 64) div 64 \<le> ((?E + 4095) div 4096 + 63) div 64" by (rule div_le_mono)
  moreover have "((?E + 4095) div 4096 + 63) div 64 = (?E + 262143) div 262144"
    using split_word_page(1)[of "?E + 262143"] by simp
  ultimately have "p div 64 < (?E + 262143) div 262144" by simp
  then show "p div 64 < end_word offset sz"
    using ne page_word_less[OF p] by (simp add: end_word_def)
qed

lemma page_bit_masked:
  assumes len: "length ws = 16" and p: "p < 1024"
    and f: "\<And>x m b. bit (f x m) b = fb (bit x b) (bit m b)"
    and fb: "\<And>x. fb x False = x"
  shows "page_bit (masked_upto f offset sz (end_word offset sz) ws) p
         = fb (page_bit ws p) (page_in_range offset sz p)"
proof -
  have w: "p div 64 < 16" using p by (rule page_word_less)
  have split: "64 * (p div 64) + p mod 64 = p" by simp
  have m: "bit (word_mask offset sz (p div 64)) (p mod 64) = page_in_range offset sz p"
    using bit_word_mask[OF w, of offset sz "p mod 64"] by (simp add: split)
  show ?thesis
  proof (cases "first_word offset sz \<le> p div 64 \<and> p div 64 < end_word offset sz")
    case True
    then show ?thesis
      using w len by (simp add: page_bit_def nth_masked_upto f m)
  next
    case False
    then have "\<not> page_in_range offset sz p" using in_range_word[of offset sz p] by blast
    with False show ?thesis
      using w len by (auto simp: page_bit_def nth_masked_upto fb)
  qed
qed

lemma page_bit_set_bits:
  "length ws = 16 \<Longrightarrow> p < 1024 \<Longrightarrow>
   page_bit (masked_upto set_bits offset sz (end_word offset sz) ws) p
     = (page_bit ws p \<or> page_in_range offset sz p)"
  by (rule page_bit_masked) (simp_all add: set_bits_def bit_simps)

lemma page_bit_clear_bits:
  "length ws = 16 \<Longrightarrow> p < 1024 \<Longrightarrow>
   page_bit (masked_upto clear_bits offset sz (end_word offset sz) ws) p
     = (page_bit ws p \<and> \<not> page_in_range offset sz p)"
  by (rule page_bit_masked) (auto simp: clear_bits_def bit_simps dest: bit_imp_le_length)

lemma masked_keep_bits: "masked_upto keep_bits offset sz n ws = ws"
  by (rule nth_equalityI) (simp_all add: nth_masked_upto keep_bits_def)


definition fe_cpu_op :: "Type \<Rightarrow> bool \<Rightarrow> word_op" where
  "fe_cpu_op t clear = (if clear \<and> t = CPU then clear_bits else keep_bits)"
definition fe_gpu_op :: "Type \<Rightarrow> bool \<Rightarrow> word_op" where
  "fe_gpu_op t clear = (if clear \<and> t = GPU then clear_bits else keep_bits)"
definition fe_write_op :: "Type \<Rightarrow> bool \<Rightarrow> word_op" where
  "fe_write_op t clear = (if clear \<and> t = CPU then clear_bits else keep_bits)"
definition fe_read_op :: "Type \<Rightarrow> bool \<Rightarrow> word_op" where
  "fe_read_op t clear = (if clear \<and> t = GPU then set_bits else keep_bits)"

definition fe_calls :: "Type \<Rightarrow> bool \<Rightarrow> VAddr \<Rightarrow> nat \<Rightarrow> u64 \<Rightarrow> u64 \<Rightarrow> u64
    \<Rightarrow> call list \<Rightarrow> call list" where
  "fe_calls t clear base i m w rd cs =
     (if clear then
        (case t of CPU \<Rightarrow> UpdateProtection True False base i w m cs
                 | GPU \<Rightarrow> UpdateProtection False True base i rd m cs)
      else cs)"

definition fe_step :: "Type \<Rightarrow> bool \<Rightarrow> VAddr \<Rightarrow> nat \<Rightarrow> u64 \<Rightarrow> u64 \<Rightarrow> u64 \<Rightarrow> u64 \<Rightarrow> u64
    \<Rightarrow> range_state \<Rightarrow> range_state" where
  "fe_step t clear base i m c g w rd st =
     IteratePages ((case t of CPU \<Rightarrow> c | GPU \<Rightarrow> g) AND m) (on_pages base (i * 64))
       (st\<lparr>calls := fe_calls t clear base i m w rd (calls st)\<rparr>)"

lemma ForEachModifiedRange_word_eq:
  assumes "i < 16" "wf_region r"
  shows "ForEachModifiedRange_word t clear i m (r, st) =
     Some (upd4 (fe_cpu_op t clear) (fe_gpu_op t clear) (fe_write_op t clear) (fe_read_op t clear) i m r,
           fe_step t clear (cpu_addr r) i m (cpu r ! i) (gpu r ! i) (write_bits r ! i) (read_bits r ! i) st)"
  using assms unfolding ForEachModifiedRange_word_def wf_region_def
  by (cases t; cases clear)
     (simp_all add: word_at_def modify_at_def upd4_def fe_cpu_op_def fe_gpu_op_def
        fe_write_op_def fe_read_op_def fe_calls_def fe_step_def set_bits_def clear_bits_def
        keep_bits_def Span_def consts_simps)

definition fe_final :: "VAddr \<Rightarrow> range_state \<Rightarrow> call list" where
  "fe_final base st = calls (if pending st then release base st else st)"

definition fe_init :: "call list \<Rightarrow> range_state" where
  "fe_init cs = \<lparr>calls = cs, pending = False, pending_offset = 0, pending_pointer = 0\<rparr>"

lemma ForEachModifiedRange_eq:
  assumes "wf_region r"
  shows "ForEachModifiedRange t clear addr sz (r, cs) =
     Some (region_after (fe_cpu_op t clear) (fe_gpu_op t clear) (fe_write_op t clear) (fe_read_op t clear)
             (addr - cpu_addr r) sz r,
           fe_final (cpu_addr r)
             (fold (\<lambda>i. fe_step t clear (cpu_addr r) i (word_mask (addr - cpu_addr r) sz i)
                        (cpu r ! i) (gpu r ! i) (write_bits r ! i) (read_bits r ! i))
               [first_word (addr - cpu_addr r) sz..<end_word (addr - cpu_addr r) sz] (fe_init cs)))"
proof -
  have "IterateWords (addr - cpu_addr r) sz
          (\<lambda>index msk rs. map_option (Pair False) (ForEachModifiedRange_word t clear index msk rs))
          (r, fe_init cs)
        = Some (region_upto (fe_cpu_op t clear) (fe_gpu_op t clear) (fe_write_op t clear)
                  (fe_read_op t clear) (addr - cpu_addr r) sz (end_word (addr - cpu_addr r) sz) r,
             fold (\<lambda>i. fe_step t clear (cpu_addr r) i (word_mask (addr - cpu_addr r) sz i)
                        (cpu r ! i) (gpu r ! i) (write_bits r ! i) (read_bits r ! i))
               [first_word (addr - cpu_addr r) sz..<end_word (addr - cpu_addr r) sz] (fe_init cs))"
    by (rule IterateWords_words[OF _ assms]) (simp add: ForEachModifiedRange_word_eq)
  then show ?thesis
    unfolding ForEachModifiedRange_def region_after_def fe_final_def
    by (simp add: fe_init_def Let_def)
qed

definition write_tracked :: "RegionManager \<Rightarrow> nat \<Rightarrow> bool" where
  "write_tracked r p \<longleftrightarrow> \<not> page_bit (write_bits r) p"

definition read_tracked :: "RegionManager \<Rightarrow> nat \<Rightarrow> bool" where
  "read_tracked r p \<longleftrightarrow> \<not> page_bit (read_bits r) p"

lemma wf_region_after [simp]: "wf_region (region_after fc fg fw fr offset sz r) = wf_region r"
  by (simp add: region_after_def)

lemma cpu_addr_region_after [simp]: "cpu_addr (region_after fc fg fw fr offset sz r) = cpu_addr r"
  by (simp add: region_after_def)

lemma region_after_fields:
  "cpu (region_after fc fg fw fr offset sz r) = masked_upto fc offset sz (end_word offset sz) (cpu r)"
  "gpu (region_after fc fg fw fr offset sz r) = masked_upto fg offset sz (end_word offset sz) (gpu r)"
  "write_bits (region_after fc fg fw fr offset sz r) = masked_upto fw offset sz (end_word offset sz) (write_bits r)"
  "read_bits (region_after fc fg fw fr offset sz r) = masked_upto fr offset sz (end_word offset sz) (read_bits r)"
  by (simp_all add: region_after_def region_upto_def)

text \<open>The effect of the operations on single pages.\<close>

lemma ChangeRegionState_pages:
  assumes wf: "wf_region r" and p: "p < 1024"
    and res: "ChangeRegionState t d addr sz (r, cs) = Some (r', cs')"
  shows "cpu_modified r' p = (case t of CPU \<Rightarrow> if page_in_range (addr - cpu_addr r) sz p then d
                                         else cpu_modified r p
                                 | GPU \<Rightarrow> cpu_modified r p)"
    and "gpu_modified r' p = (case t of GPU \<Rightarrow> if page_in_range (addr - cpu_addr r) sz p then d
                                         else gpu_modified r p
                                 | CPU \<Rightarrow> gpu_modified r p)"
    and "write_tracked r' p = (if page_in_range (addr - cpu_addr r) sz p
                               then (case t of CPU \<Rightarrow> \<not> d | GPU \<Rightarrow> True)
                               else write_tracked r p)"
    and "read_tracked r' p = (case t of GPU \<Rightarrow> if page_in_range (addr - cpu_addr r) sz p then d
                                         else read_tracked r p
                                 | CPU \<Rightarrow> read_tracked r p)"
proof -
  have len: "length (cpu r) = 16" "length (gpu r) = 16" "length (write_bits r) = 16"
    "length (read_bits r) = 16" using wf by (simp_all add: wf_region_def)
  have r': "r' = region_after (crs_cpu_op t d) (crs_gpu_op t d) (crs_write_op t d) (crs_read_op t d)
             (addr - cpu_addr r) sz r"
    using res ChangeRegionState_eq[OF wf, of t d addr sz cs] by simp
  show "cpu_modified r' p = (case t of CPU \<Rightarrow> if page_in_range (addr - cpu_addr r) sz p then d
                                         else cpu_modified r p
                                 | GPU \<Rightarrow> cpu_modified r p)"
    unfolding r' cpu_modified_def region_after_fields crs_cpu_op_def using len p
    by (cases t; cases d) (simp_all add: page_bit_set_bits page_bit_clear_bits masked_keep_bits)
  show "gpu_modified r' p = (case t of GPU \<Rightarrow> if page_in_range (addr - cpu_addr r) sz p then d
                                         else gpu_modified r p
                                 | CPU \<Rightarrow> gpu_modified r p)"
    unfolding r' gpu_modified_def region_after_fields crs_gpu_op_def using len p
    by (cases t; cases d) (simp_all add: page_bit_set_bits page_bit_clear_bits masked_keep_bits)
  show "write_tracked r' p = (if page_in_range (addr - cpu_addr r) sz p
                               then (case t of CPU \<Rightarrow> \<not> d | GPU \<Rightarrow> True)
                               else write_tracked r p)"
    unfolding r' write_tracked_def region_after_fields crs_write_op_def using len p
    by (cases t; cases d) (simp_all add: page_bit_set_bits page_bit_clear_bits masked_keep_bits)
  show "read_tracked r' p = (case t of GPU \<Rightarrow> if page_in_range (addr - cpu_addr r) sz p then d
                                         else read_tracked r p
                                 | CPU \<Rightarrow> read_tracked r p)"
    unfolding r' read_tracked_def region_after_fields crs_read_op_def using len p
    by (cases t; cases d) (simp_all add: page_bit_set_bits page_bit_clear_bits masked_keep_bits)
qed

lemma ForEachModifiedRange_pages:
  assumes wf: "wf_region r" and p: "p < 1024"
    and res: "ForEachModifiedRange t clear addr sz (r, cs) = Some (r', cs')"
  shows "cpu_modified r' p = (cpu_modified r p
            \<and> \<not> (clear \<and> t = CPU \<and> page_in_range (addr - cpu_addr r) sz p))"
    and "gpu_modified r' p = (gpu_modified r p
            \<and> \<not> (clear \<and> t = GPU \<and> page_in_range (addr - cpu_addr r) sz p))"
    and "write_tracked r' p = (write_tracked r p
            \<or> (clear \<and> t = CPU \<and> page_in_range (addr - cpu_addr r) sz p))"
    and "read_tracked r' p = (read_tracked r p
            \<and> \<not> (clear \<and> t = GPU \<and> page_in_range (addr - cpu_addr r) sz p))"
proof -
  have len: "length (cpu r) = 16" "length (gpu r) = 16" "length (write_bits r) = 16"
    "length (read_bits r) = 16" using wf by (simp_all add: wf_region_def)
  have r': "r' = region_after (fe_cpu_op t clear) (fe_gpu_op t clear) (fe_write_op t clear)
             (fe_read_op t clear) (addr - cpu_addr r) sz r"
    using res ForEachModifiedRange_eq[OF wf, of t clear addr sz cs] by simp
  show "cpu_modified r' p = (cpu_modified r p
            \<and> \<not> (clear \<and> t = CPU \<and> page_in_range (addr - cpu_addr r) sz p))"
    unfolding r' cpu_modified_def region_after_fields fe_cpu_op_def using len p
    by (auto simp: page_bit_clear_bits masked_keep_bits)
  show "gpu_modified r' p = (gpu_modified r p
            \<and> \<not> (clear \<and> t = GPU \<and> page_in_range (addr - cpu_addr r) sz p))"
    unfolding r' gpu_modified_def region_after_fields fe_gpu_op_def using len p
    by (auto simp: page_bit_clear_bits masked_keep_bits)
  show "write_tracked r' p = (write_tracked r p
            \<or> (clear \<and> t = CPU \<and> page_in_range (addr - cpu_addr r) sz p))"
    unfolding r' write_tracked_def region_after_fields fe_write_op_def using len p
    by (auto simp: page_bit_clear_bits masked_keep_bits)
  show "read_tracked r' p = (read_tracked r p
            \<and> \<not> (clear \<and> t = GPU \<and> page_in_range (addr - cpu_addr r) sz p))"
    unfolding r' read_tracked_def region_after_fields fe_read_op_def using len p
    by (auto simp: page_bit_set_bits masked_keep_bits)
qed


section \<open>Reachable states and the protection invariants\<close>

datatype operation =
  ChangeRegion Type bool VAddr u64
  | ForEachModified Type bool VAddr u64

fun apply_operation :: "operation \<Rightarrow> RegionManager \<times> call list \<Rightarrow> (RegionManager \<times> call list) option" where
  "apply_operation (ChangeRegion t d addr sz) rc = ChangeRegionState t d addr sz rc"
| "apply_operation (ForEachModified t clear addr sz) rc = ForEachModifiedRange t clear addr sz rc"

inductive reachable :: "(operation \<Rightarrow> bool) \<Rightarrow> RegionManager \<Rightarrow> bool"
  for allowed :: "operation \<Rightarrow> bool"
where
  fresh: "reachable allowed (RegionManager_new base)"
| step: "reachable allowed r \<Longrightarrow> allowed opn \<Longrightarrow> apply_operation opn (r, cs) = Some (r', cs')
          \<Longrightarrow> reachable allowed r'"

fun gpu_state_change :: "operation \<Rightarrow> bool" where
  "gpu_state_change (ChangeRegion GPU d addr sz) = True"
| "gpu_state_change opn = False"

fun cpu_invalidation :: "operation \<Rightarrow> bool" where
  "cpu_invalidation (ChangeRegion CPU True addr sz) = True"
| "cpu_invalidation opn = False"

lemma apply_operation_total:
  "wf_region r \<Longrightarrow> \<exists>r' cs'. apply_operation opn (r, cs) = Some (r', cs') \<and> wf_region r'"
  by (cases opn) (simp_all add: ChangeRegionState_eq ForEachModifiedRange_eq)

lemma apply_operation_wf:
  "wf_region r \<Longrightarrow> apply_operation opn (r, cs) = Some (r', cs') \<Longrightarrow> wf_region r'"
  using apply_operation_total[of r opn cs] by auto

lemma reachable_wf: "reachable allowed r \<Longrightarrow> wf_region r"
  by (induction rule: reachable.induct) (auto simp: wf_new intro: apply_operation_wf)

lemma cpu_write_invariant:
  assumes "reachable (\<lambda>opn. \<not> gpu_state_change opn) r" "p < 1024"
  shows "cpu_modified r p = (\<not> write_tracked r p)"
  using assms
proof (induction rule: reachable.induct)
  case (fresh base)
  then have "p div 64 < 16" by (rule page_word_less)
  then show ?case
    by (simp add: cpu_modified_def write_tracked_def page_bit_def RegionManager_new_def consts_simps)
next
  case (step r opn cs r' cs')
  have wf: "wf_region r" using step.hyps(1) by (rule reachable_wf)
  show ?case
  proof (cases opn)
    case (ChangeRegion t d addr sz)
    with step.hyps(2) have t: "t = CPU" by (cases t) simp_all
    from step.hyps(3) ChangeRegion have "ChangeRegionState t d addr sz (r, cs) = Some (r', cs')"
      by simp
    from ChangeRegionState_pages(1,3)[OF wf step.prems this] step.IH[OF step.prems] t
    show ?thesis by simp
  next
    case (ForEachModified t clear addr sz)
    with step.hyps(3) have "ForEachModifiedRange t clear addr sz (r, cs) = Some (r', cs')"
      by simp
    from ForEachModifiedRange_pages(1,3)[OF wf step.prems this] step.IH[OF step.prems]
    show ?thesis by auto
  qed
qed

lemma gpu_read_invariant:
  assumes "reachable allowed r" "p < 1024"
  shows "gpu_modified r p = read_tracked r p"
  using assms
proof (induction rule: reachable.induct)
  case (fresh base)
  then have "p div 64 < 16" by (rule page_word_less)
  then show ?case
    by (simp add: gpu_modified_def read_tracked_def page_bit_def RegionManager_new_def consts_simps)
next
  case (step r opn cs r' cs')
  have wf: "wf_region r" using step.hyps(1) by (rule reachable_wf)
  show ?case
  proof (cases opn)
    case (ChangeRegion t d addr sz)
    from step.hyps(3) ChangeRegion have "ChangeRegionState t d addr sz (r, cs) = Some (r', cs')"
      by simp
    from ChangeRegionState_pages(2,4)[OF wf step.prems this] step.IH[OF step.prems]
    show ?thesis by (cases t) simp_all
  next
    case (ForEachModified t clear addr sz)
    with step.hyps(3) have "ForEachModifiedRange t clear addr sz (r, cs) = Some (r', cs')"
      by simp
    from ForEachModifiedRange_pages(2,4)[OF wf step.prems this] step.IH[OF step.prems]
    show ?thesis by auto
  qed
qed

lemma gpu_write_invariant:
  assumes "reachable (\<lambda>opn. \<not> cpu_invalidation opn) r" "p < 1024" "gpu_modified r p"
  shows "write_tracked r p"
  using assms
proof (induction rule: reachable.induct)
  case (fresh base)
  then have "p div 64 < 16" by (intro page_word_less)
  with fresh show ?case
    by (simp add: gpu_modified_def write_tracked_def page_bit_def RegionManager_new_def consts_simps)
next
  case (step r opn cs r' cs')
  have wf: "wf_region r" using step.hyps(1) by (rule reachable_wf)
  show ?case
  proof (cases opn)
    case (ChangeRegion t d addr sz)
    from step.hyps(3) ChangeRegion have res: "ChangeRegionState t d addr sz (r, cs) = Some (r', cs')"
      by simp
    have nd: "t = CPU \<Longrightarrow> \<not> d" using step.hyps(2) ChangeRegion by (cases d) auto
    from ChangeRegionState_pages(2,3)[OF wf step.prems(1) res] step.IH[OF step.prems(1)]
      step.prems(2) nd
    show ?thesis by (cases t) (auto split: if_splits)
  next
    case (ForEachModified t clear addr sz)
    with step.hyps(3) have "ForEachModifiedRange t clear addr sz (r, cs) = Some (r', cs')"
      by simp
    from ForEachModifiedRange_pages(2,3)[OF wf step.prems(1) this] step.IH[OF step.prems(1)]
      step.prems(2)
    show ?thesis by auto
  qed
qed


lemma reachable_ChangeRegion:
  assumes "reachable allowed r" "allowed (ChangeRegion t d addr sz)"
  shows "reachable allowed (fst (the (ChangeRegionState t d addr sz (r, cs))))"
proof -
  have "wf_region r" using assms(1) by (rule reachable_wf)
  then obtain r' cs' where "ChangeRegionState t d addr sz (r, cs) = Some (r', cs')"
    by (simp add: ChangeRegionState_eq)
  then show ?thesis
    using reachable.step[OF assms, of cs r' cs'] by simp
qed

definition gpu_marked_region :: RegionManager where
  "gpu_marked_region =
     fst (the (ChangeRegionState GPU True 0x10000000 0x1000 (RegionManager_new 0x10000000, [])))"

definition gpu_then_cpu_marked_region :: RegionManager where
  "gpu_then_cpu_marked_region =
     fst (the (ChangeRegionState CPU True 0x10000000 0x1000 (gpu_marked_region, [])))"

definition cpu_cleared_region :: RegionManager where
  "cpu_cleared_region =
     fst (the (ChangeRegionState CPU False 0x10000000 0x2000 (RegionManager_new 0x10000000, [])))"

lemma gpu_marked_region_pages:
  "cpu_modified gpu_marked_region 0" "write_tracked gpu_marked_region 0"
  "gpu_modified gpu_marked_region 0" "read_tracked gpu_marked_region 0"
  "cpu_modified (RegionManager_new 0x10000000) 0"
  "page_bit (write_bits (RegionManager_new 0x10000000)) 0"
  by code_simp+

lemma gpu_then_cpu_marked_region_pages:
  "gpu_modified gpu_then_cpu_marked_region 0" "\<not> write_tracked gpu_then_cpu_marked_region 0"
  by code_simp+

lemma cpu_cleared_region_pages:
  "\<not> cpu_modified cpu_cleared_region 1" "write_tracked cpu_cleared_region 1"
  "cpu_modified cpu_cleared_region 2" "\<not> write_tracked cpu_cleared_region 2"
  by code_simp+

text \<open>Claim C3, as amended. In every state reached from the freshly constructed region by
  \<open>ChangeRegionState<CPU, _>\<close> and \<open>ForEachModifiedRange\<close> operations, a CPU-modified
  page is not write-tracked and a write-tracked page is not CPU-modified. (A page is
  write-tracked when its bit in \<open>write\<close> is clear: \<open>write\<close> holds the pages that are
  unprotected.) Each operation is one transition of the model: both bitsets change in the
  same step.\<close>

theorem cpu_modified_not_write_tracked:
  assumes "reachable (\<lambda>opn. \<not> gpu_state_change opn) r" "p < 1024"
  shows "(cpu_modified r p \<longrightarrow> \<not> write_tracked r p) \<and> (write_tracked r p \<longrightarrow> \<not> cpu_modified r p)"
  using cpu_write_invariant[OF assms] by simp

theorem cpu_modified_not_write_tracked_witness:
  "reachable (\<lambda>opn. \<not> gpu_state_change opn) cpu_cleared_region \<and> (1::nat) < 1024 \<and> (2::nat) < 1024
   \<and> write_tracked cpu_cleared_region 1 \<and> \<not> cpu_modified cpu_cleared_region 1
   \<and> cpu_modified cpu_cleared_region 2 \<and> \<not> write_tracked cpu_cleared_region 2"
proof -
  have r: "reachable (\<lambda>opn. \<not> gpu_state_change opn) cpu_cleared_region"
    unfolding cpu_cleared_region_def by (rule reachable_ChangeRegion[OF reachable.fresh]) simp
  have "(1::nat) < 1024" "(2::nat) < 1024" by simp_all
  from cpu_modified_not_write_tracked[OF r this(1)] cpu_modified_not_write_tracked[OF r this(2)]
    r cpu_cleared_region_pages(2,3)
  show ?thesis by simp
qed

text \<open>Claim C3 as stated fails once \<open>ChangeRegionState<GPU, _>\<close> is among the
  operations: it write-protects the pages of its range and leaves their CPU-modified bits
  alone. After \<open>ChangeRegionState<GPU, true>\<close> on the first page of a fresh region that
  page is CPU-modified and write-tracked. (Read with the raw bit of \<open>write\<close> as the
  tracking bit, the claim already fails on the fresh region, where both bits are set.)\<close>

theorem gpu_state_change_keeps_cpu_modified:
  "reachable (\<lambda>opn. True) gpu_marked_region
   \<and> cpu_modified gpu_marked_region 0 \<and> write_tracked gpu_marked_region 0
   \<and> cpu_modified (RegionManager_new 0x10000000) 0
   \<and> page_bit (write_bits (RegionManager_new 0x10000000)) 0"
proof -
  have "reachable (\<lambda>opn. True) gpu_marked_region"
    unfolding gpu_marked_region_def by (rule reachable_ChangeRegion[OF reachable.fresh]) simp
  then show ?thesis using gpu_marked_region_pages by simp
qed

text \<open>Claim C4, as amended. In every reachable state a page is GPU-modified exactly when it
  is read-tracked. In every state reached without \<open>ChangeRegionState<CPU, true>\<close> a
  GPU-modified page is also write-tracked.\<close>

theorem gpu_modified_tracking:
  "(reachable allowed r \<and> p < 1024 \<longrightarrow> gpu_modified r p = read_tracked r p)
   \<and> (reachable (\<lambda>opn. \<not> cpu_invalidation opn) r \<and> p < 1024 \<and> gpu_modified r p
        \<longrightarrow> write_tracked r p)"
  using gpu_read_invariant[of allowed r p] gpu_write_invariant[of r p] by blast

theorem gpu_modified_tracking_witness:
  "reachable (\<lambda>opn. \<not> cpu_invalidation opn) gpu_marked_region \<and> (0::nat) < 1024
   \<and> gpu_modified gpu_marked_region 0 \<and> read_tracked gpu_marked_region 0
   \<and> write_tracked gpu_marked_region 0"
proof -
  have r: "reachable (\<lambda>opn. \<not> cpu_invalidation opn) gpu_marked_region"
    unfolding gpu_marked_region_def by (rule reachable_ChangeRegion[OF reachable.fresh]) simp
  from gpu_modified_tracking[of "\<lambda>opn. \<not> cpu_invalidation opn" gpu_marked_region 0]
    r gpu_marked_region_pages(3)
  show ?thesis by simp
qed

text \<open>Claim C4 as stated fails after \<open>ChangeRegionState<CPU, true>\<close> on a GPU-modified
  page: the page stays GPU-modified and is no longer write-tracked.\<close>

theorem cpu_invalidation_untracks_gpu_modified:
  "reachable (\<lambda>opn. True) gpu_then_cpu_marked_region
   \<and> gpu_modified gpu_then_cpu_marked_region 0 \<and> \<not> write_tracked gpu_then_cpu_marked_region 0"
proof -
  have "reachable (\<lambda>opn. True) gpu_marked_region"
    unfolding gpu_marked_region_def by (rule reachable_ChangeRegion[OF reachable.fresh]) simp
  then have "reachable (\<lambda>opn. True) gpu_then_cpu_marked_region"
    unfolding gpu_then_cpu_marked_region_def by (rule reachable_ChangeRegion) simp
  then show ?thesis using gpu_then_cpu_marked_region_pages by simp
qed


section \<open>The runs reported by IteratePages\<close>

text \<open>The runs of set bits that \<open>IteratePages\<close> reports, as a list.\<close>

function page_runs_from :: "nat \<Rightarrow> u64 \<Rightarrow> (nat \<times> nat) list" where
  "page_runs_from offset msk =
     (if msk \<noteq> 0 then
        let empty_bits = countr_zero msk;
            offset = offset + empty_bits;
            msk = drop_bit empty_bits msk;
            continuous_bits = countr_one msk
        in (offset, continuous_bits) #
           page_runs_from (offset + continuous_bits)
             (if continuous_bits < unat PAGES_PER_WORD then drop_bit continuous_bits msk else 0)
      else [])"
  by pat_completeness auto
termination
  by (relation "measure (\<lambda>(offset, msk). unat msk)")
     (auto simp: IteratePages_decreases unat_gt_0)

declare page_runs_from.simps [simp del]

definition page_runs :: "u64 \<Rightarrow> (nat \<times> nat) list" where
  "page_runs msk = page_runs_from 0 msk"

lemma IteratePages_loop_fold:
  "IteratePages_loop func offset msk s
     = fold (\<lambda>(off, n). func off n) (page_runs_from offset msk) s"
proof (induction func offset msk s rule: IteratePages_loop.induct)
  case (1 func offset msk s)
  show ?case
  proof (cases "msk = 0")
    case True
    then show ?thesis
      by (subst IteratePages_loop.simps, subst page_runs_from.simps) simp
  next
    case False
    show ?thesis
      apply (subst IteratePages_loop.simps)
      apply (subst page_runs_from.simps)
      using False 1[OF False refl refl refl refl refl refl refl]
      apply (simp add: Let_def)
      done
  qed
qed

lemma IteratePages_fold:
  "IteratePages msk func s = fold (\<lambda>(off, n). func off n) (page_runs msk) s"
  by (simp add: IteratePages_def page_runs_def IteratePages_loop_fold)

lemma page_runs_0 [simp]: "page_runs 0 = []"
  by (simp add: page_runs_def page_runs_from.simps)

lemma IteratePages_0 [simp]: "IteratePages 0 func s = s"
  by (simp add: IteratePages_fold)


text \<open>\<open>runs_of P lo hi L\<close>: \<open>L\<close> lists, in ascending order, the runs of pages with \<open>P\<close>
  inside the window \<open>[lo, hi)\<close>, each as (first page, number of pages).\<close>

inductive runs_of :: "(nat \<Rightarrow> bool) \<Rightarrow> nat \<Rightarrow> nat \<Rightarrow> (nat \<times> nat) list \<Rightarrow> bool"
  for P :: "nat \<Rightarrow> bool"
where
  runs_Nil: "(\<And>p. lo \<le> p \<Longrightarrow> p < hi \<Longrightarrow> \<not> P p) \<Longrightarrow> runs_of P lo hi []"
| runs_Cons: "lo \<le> s \<Longrightarrow> 0 < n \<Longrightarrow> s + n \<le> hi \<Longrightarrow> (\<And>p. lo \<le> p \<Longrightarrow> p < s \<Longrightarrow> \<not> P p)
     \<Longrightarrow> (\<And>p. s \<le> p \<Longrightarrow> p < s + n \<Longrightarrow> P p) \<Longrightarrow> (s + n < hi \<Longrightarrow> \<not> P (s + n))
     \<Longrightarrow> runs_of P (s + n) hi L \<Longrightarrow> runs_of P lo hi ((s, n) # L)"

lemma unat_PAGES_PER_WORD: "unat PAGES_PER_WORD = 64"
  by (simp add: PAGES_PER_WORD_def)

lemma bit_u64_less: "bit w p \<Longrightarrow> p < 64" for w :: u64
  using bit_imp_le_length[of w p] by simp

lemma page_runs_from_runs:
  assumes "msk = drop_bit offset w"
  shows "runs_of (bit w) offset 64 (page_runs_from offset msk)"
  using assms
proof (induction offset msk rule: page_runs_from.induct)
  case (1 offset msk)
  show ?case
  proof (cases "msk = 0")
    case True
    have "\<not> bit w p" if "offset \<le> p" for p
    proof
      assume "bit w p"
      then have "bit (drop_bit offset w) (p - offset)" using that by (simp add: bit_drop_bit_eq)
      then show False using True "1.prems" by simp
    qed
    then show ?thesis
      using True by (subst page_runs_from.simps) (simp add: runs_Nil)
  next
    case False
    define e where "e = countr_zero msk"
    define m1 where "m1 = drop_bit e msk"
    define c where "c = countr_one m1"
    define m2 where "m2 = (if c < 64 then drop_bit c m1 else 0)"
    have bit_msk: "bit msk i = bit w (offset + i)" for i
      by (simp add: "1.prems" bit_drop_bit_eq add.commute)
    have bit_m1: "bit m1 i = bit w (offset + e + i)" for i
      by (simp add: m1_def bit_drop_bit_eq bit_msk add.commute add.left_commute)
    have e64: "e < 64" using False by (simp add: e_def countr_zero_lt)
    have "bit msk e" using e64 by (simp add: e_def countr_zero_stop)
    then have be: "bit w (offset + e)" by (simp add: bit_msk)
    then have oe: "offset + e < 64" by (rule bit_u64_less)
    have "bit m1 0" using be by (simp add: bit_m1)
    then have cpos: "0 < c" unfolding c_def by (rule countr_one_pos)
    have ones: "bit w p" if "offset + e \<le> p" "p < offset + e + c" for p
    proof -
      have "p - (offset + e) < countr_one m1" using that by (simp add: c_def)
      then have "bit m1 (p - (offset + e))" by (rule countr_one_set)
      then show ?thesis using that by (simp add: bit_m1)
    qed
    have top: "offset + e + c \<le> 64"
    proof (rule ccontr)
      assume "\<not> offset + e + c \<le> 64"
      then have "bit w 64" using oe by (intro ones) simp_all
      then show False using bit_u64_less[of w 64] by simp
    qed
    have zeros: "\<not> bit w p" if "offset \<le> p" "p < offset + e" for p
    proof -
      have "p - offset < countr_zero msk" using that by (simp add: e_def)
      then have "\<not> bit msk (p - offset)" by (rule countr_zero_clear)
      then show ?thesis using that by (simp add: bit_msk)
    qed
    have stop: "\<not> bit w (offset + e + c)" if "offset + e + c < 64"
    proof -
      have "c < 64" using that by simp
      then have "\<not> bit m1 c" unfolding c_def by (rule countr_one_stop)
      then show ?thesis by (simp add: bit_m1)
    qed
    have m2: "m2 = drop_bit (offset + e + c) w"
    proof (cases "c < 64")
      case True
      then show ?thesis
        by (simp add: m2_def m1_def "1.prems" drop_bit_drop_bit add.commute add.left_commute)
    next
      case False
      then have "c = 64" "offset + e = 0" using top by simp_all
      then show ?thesis using False by (simp add: m2_def)
    qed
    have IH: "runs_of (bit w) (offset + e + c) 64 (page_runs_from (offset + e + c) m2)"
      using "1.IH"[OF False e_def refl m1_def c_def] m2
      unfolding m2_def unat_PAGES_PER_WORD by simp
    have "runs_of (bit w) offset 64 ((offset + e, c) # page_runs_from (offset + e + c) m2)"
      using cpos top zeros ones stop IH by (intro runs_Cons) simp_all
    moreover have "page_runs_from offset msk = (offset + e, c) # page_runs_from (offset + e + c) m2"
      using False by (subst page_runs_from.simps)
        (simp add: Let_def e_def m1_def c_def m2_def unat_PAGES_PER_WORD)
    ultimately show ?thesis by simp
  qed
qed

lemma page_runs_runs: "runs_of (bit w) 0 64 (page_runs w)"
  unfolding page_runs_def by (rule page_runs_from_runs) simp


text \<open>A maximal contiguous run of pages with \<open>P\<close>: \<open>n > 0\<close> pages from \<open>s\<close> on all have
  \<open>P\<close>, and neither the page before nor the page after has it.\<close>

definition maximal_run :: "(nat \<Rightarrow> bool) \<Rightarrow> nat \<Rightarrow> nat \<Rightarrow> bool" where
  "maximal_run P s n \<longleftrightarrow>
     0 < n \<and> (\<forall>p. s \<le> p \<and> p < s + n \<longrightarrow> P p) \<and> \<not> P (s + n) \<and> (0 < s \<longrightarrow> \<not> P (s - 1))"

text \<open>\<open>L\<close> lists every maximal run of \<open>P\<close> exactly once, in ascending order: each entry is
  a maximal run, each entry ends before the next one starts, and every page with \<open>P\<close> lies
  in an entry.\<close>

definition maximal_runs :: "(nat \<Rightarrow> bool) \<Rightarrow> (nat \<times> nat) list \<Rightarrow> bool" where
  "maximal_runs P L \<longleftrightarrow>
     (\<forall>(s, n) \<in> set L. maximal_run P s n) \<and>
     sorted_wrt (\<lambda>a b. fst a + snd a < fst b) L \<and>
     (\<forall>p. P p \<longrightarrow> (\<exists>(s, n) \<in> set L. s \<le> p \<and> p < s + n))"

text \<open>The same inside a window \<open>[lo, hi)\<close>: a run that touches an end of the window need not
  be maximal there.\<close>

definition runs_within :: "(nat \<Rightarrow> bool) \<Rightarrow> nat \<Rightarrow> nat \<Rightarrow> (nat \<times> nat) list \<Rightarrow> bool" where
  "runs_within P lo hi L \<longleftrightarrow>
     (\<forall>(s, n) \<in> set L. lo \<le> s \<and> 0 < n \<and> s + n \<le> hi \<and> (\<forall>p. s \<le> p \<and> p < s + n \<longrightarrow> P p)
         \<and> (lo < s \<longrightarrow> \<not> P (s - 1)) \<and> (s + n < hi \<longrightarrow> \<not> P (s + n))) \<and>
     sorted_wrt (\<lambda>a b. fst a + snd a < fst b) L \<and>
     (\<forall>p. lo \<le> p \<and> p < hi \<and> P p \<longrightarrow> (\<exists>(s, n) \<in> set L. s \<le> p \<and> p < s + n))"

lemma runs_within_maximal:
  assumes "runs_within P 0 hi L" "\<And>p. hi \<le> p \<Longrightarrow> \<not> P p"
  shows "maximal_runs P L"
proof -
  have "maximal_run P s n" if "(s, n) \<in> set L" for s n
  proof -
    from assms(1) that have f: "0 < n" "s + n \<le> hi" "\<forall>p. s \<le> p \<and> p < s + n \<longrightarrow> P p"
      "0 < s \<longrightarrow> \<not> P (s - 1)" "s + n < hi \<longrightarrow> \<not> P (s + n)"
      unfolding runs_within_def by auto
    have "\<not> P (s + n)" using f(2,5) assms(2)[of "s + n"] by (cases "s + n < hi") auto
    with f show ?thesis unfolding maximal_run_def by simp
  qed
  moreover have "\<exists>(s, n) \<in> set L. s \<le> p \<and> p < s + n" if "P p" for p
  proof -
    have "p < hi" using that assms(2)[of p] by (cases "p < hi") auto
    with that assms(1) show ?thesis unfolding runs_within_def by simp
  qed
  ultimately show ?thesis
    using assms(1) unfolding maximal_runs_def runs_within_def by auto
qed

lemma runs_within_Nil: "(\<And>p. lo \<le> p \<Longrightarrow> p < hi \<Longrightarrow> \<not> P p) \<Longrightarrow> runs_within P lo hi []"
  by (simp add: runs_within_def)

lemma runs_within_Cons:
  assumes "lo \<le> s" "0 < n" "s + n \<le> hi"
    and zeros: "\<And>p. lo \<le> p \<Longrightarrow> p < s \<Longrightarrow> \<not> P p"
    and ones: "\<And>p. s \<le> p \<Longrightarrow> p < s + n \<Longrightarrow> P p"
    and stop: "s + n < hi \<Longrightarrow> \<not> P (s + n)"
    and rest: "runs_within P (s + n) hi L"
  shows "runs_within P lo hi ((s, n) # L)"
proof -
  have el: "s + n < a \<and> 0 < b \<and> a + b \<le> hi \<and> (\<forall>p. a \<le> p \<and> p < a + b \<longrightarrow> P p)
      \<and> \<not> P (a - 1) \<and> (a + b < hi \<longrightarrow> \<not> P (a + b))" if "(a, b) \<in> set L" for a b
  proof -
    from rest that have f: "s + n \<le> a" "0 < b" "a + b \<le> hi" "\<forall>p. a \<le> p \<and> p < a + b \<longrightarrow> P p"
      "s + n < a \<longrightarrow> \<not> P (a - 1)" "a + b < hi \<longrightarrow> \<not> P (a + b)"
      unfolding runs_within_def by auto
    have "P a" using f(2,4) by simp
    moreover have "s + n < hi" using f(1,2,3) by simp
    ultimately have "s + n \<noteq> a" using stop by auto
    with f show ?thesis by simp
  qed
  have 1: "\<forall>(a, b) \<in> set ((s, n) # L). lo \<le> a \<and> 0 < b \<and> a + b \<le> hi
      \<and> (\<forall>p. a \<le> p \<and> p < a + b \<longrightarrow> P p) \<and> (lo < a \<longrightarrow> \<not> P (a - 1))
      \<and> (a + b < hi \<longrightarrow> \<not> P (a + b))"
  proof -
    have "lo < s \<longrightarrow> \<not> P (s - 1)" using zeros[of "s - 1"] by auto
    moreover have "lo \<le> a" if "(a, b) \<in> set L" for a b
      using el[OF that] assms(1) by simp
    ultimately show ?thesis using assms(1,2,3) ones stop el by auto
  qed
  have 2: "sorted_wrt (\<lambda>a b. fst a + snd a < fst b) ((s, n) # L)"
    using rest el unfolding runs_within_def by auto
  have 3: "\<exists>(a, b) \<in> set ((s, n) # L). a \<le> p \<and> p < a + b" if "lo \<le> p" "p < hi" "P p" for p
  proof (cases "p < s + n")
    case True
    then have "s \<le> p" using zeros[of p] that by (cases "s \<le> p") auto
    with True show ?thesis by simp
  next
    case False
    then have "\<exists>(a, b) \<in> set L. a \<le> p \<and> p < a + b"
      using rest that unfolding runs_within_def by simp
    then show ?thesis by auto
  qed
  show ?thesis unfolding runs_within_def using 1 2 3 by blast
qed

lemma runs_of_within: "runs_of P lo hi L \<Longrightarrow> runs_within P lo hi L"
  by (induction rule: runs_of.induct) (auto intro: runs_within_Nil runs_within_Cons)

lemma page_runs_maximal: "maximal_runs (bit w) (page_runs w)" for w :: u64
  using runs_of_within[OF page_runs_runs[of w]]
  by (rule runs_within_maximal) (auto dest: bit_u64_less)


section \<open>Marking a range twice\<close>

lemma UpdateProtection_unchanged:
  "(if add then access else NOT access) AND msk = 0
     \<Longrightarrow> UpdateProtection add is_read base i access msk cs = cs"
  by (simp add: UpdateProtection_def Let_def)

lemma masked_set_bits_idem:
  "masked_upto set_bits offset sz n (masked_upto set_bits offset sz n ws)
     = masked_upto set_bits offset sz n ws"
  by (rule nth_equalityI) (simp_all add: nth_masked_upto set_bits_def)

text \<open>Claim C7. Calling \<open>ChangeRegionState<CPU, true>\<close> a second time on the same range
  leaves the bitsets as the first call left them, and makes no call to
  \<open>UpdatePageWatchers\<close>: the second call returns the state and the list of calls it was
  given.\<close>

theorem mark_cpu_modified_idempotent:
  assumes "wf_region r"
  shows "\<exists>r' cs'. ChangeRegionState CPU True addr sz (r, cs) = Some (r', cs')
           \<and> ChangeRegionState CPU True addr sz (r', cs') = Some (r', cs')"
proof -
  let ?o = "addr - cpu_addr r"
  define r' where "r' = region_after (crs_cpu_op CPU True) (crs_gpu_op CPU True)
      (crs_write_op CPU True) (crs_read_op CPU True) ?o sz r"
  define cs' where "cs' = fold (\<lambda>i. crs_calls CPU True (cpu_addr r) i (word_mask ?o sz i)
        (cpu r ! i) (gpu r ! i) (write_bits r ! i) (read_bits r ! i))
      [first_word ?o sz..<end_word ?o sz] cs"
  have first: "ChangeRegionState CPU True addr sz (r, cs) = Some (r', cs')"
    unfolding r'_def cs'_def by (rule ChangeRegionState_eq[OF assms])
  have wf': "wf_region r'" using assms by (simp add: r'_def)
  have addr': "cpu_addr r' = cpu_addr r" by (simp add: r'_def)
  have same: "region_after (crs_cpu_op CPU True) (crs_gpu_op CPU True)
      (crs_write_op CPU True) (crs_read_op CPU True) ?o sz r' = r'"
    unfolding r'_def region_after_def region_upto_def
    by (simp add: crs_cpu_op_def crs_gpu_op_def crs_write_op_def crs_read_op_def
          masked_set_bits_idem masked_keep_bits)
  have quiet: "crs_calls CPU True (cpu_addr r) i (word_mask ?o sz i)
        (cpu r' ! i) (gpu r' ! i) (write_bits r' ! i) (read_bits r' ! i) = id"
    if "i \<in> set [first_word ?o sz..<end_word ?o sz]" for i
  proof -
    have i: "first_word ?o sz \<le> i" "i < end_word ?o sz" using that by simp_all
    then have "i < length (write_bits r)"
      using end_word_le[of ?o sz] assms by (simp add: wf_region_def)
    then have "write_bits r' ! i = write_bits r ! i OR word_mask ?o sz i"
      using i by (simp add: r'_def region_after_fields crs_write_op_def nth_masked_upto set_bits_def)
    then have "NOT (write_bits r' ! i) AND word_mask ?o sz i = 0"
      by (simp add: bit_eq_iff bit_simps)
    then show ?thesis
      by (intro ext) (simp add: crs_calls_def UpdateProtection_unchanged)
  qed
  have "fold (\<lambda>i. crs_calls CPU True (cpu_addr r) i (word_mask ?o sz i)
        (cpu r' ! i) (gpu r' ! i) (write_bits r' ! i) (read_bits r' ! i))
      [first_word ?o sz..<end_word ?o sz] = id"
    by (rule fold_id) (rule quiet)
  then have "ChangeRegionState CPU True addr sz (r', cs') = Some (r', cs')"
    using ChangeRegionState_eq[OF wf', of CPU True addr sz cs']
    by (simp add: addr' same)
  with first show ?thesis by blast
qed

theorem mark_cpu_modified_idempotent_witness:
  "wf_region cpu_cleared_region
   \<and> (\<exists>r' cs'. ChangeRegionState CPU True 0x10001000 0x3000 (cpu_cleared_region, []) = Some (r', cs')
           \<and> ChangeRegionState CPU True 0x10001000 0x3000 (r', cs') = Some (r', cs'))"
proof -
  have "reachable (\<lambda>opn. True) cpu_cleared_region"
    unfolding cpu_cleared_region_def by (rule reachable_ChangeRegion[OF reachable.fresh]) simp
  then have wf: "wf_region cpu_cleared_region" by (rule reachable_wf)
  from mark_cpu_modified_idempotent[OF wf, of "0x10001000" "0x3000" "[]"] wf
  show ?thesis by simp
qed


section \<open>The calls to the tracker\<close>

definition watcher_calls :: "int \<Rightarrow> bool \<Rightarrow> VAddr \<Rightarrow> nat \<Rightarrow> (nat \<times> nat) list \<Rightarrow> call list" where
  "watcher_calls delta is_read base i runs =
     map (\<lambda>(off, n). UpdatePageWatchers delta is_read
            (base + of_nat i * BYTES_PER_WORD + of_nat off * BYTES_PER_PAGE)
            (of_nat n * BYTES_PER_PAGE)) runs"

lemma fold_append_each: "fold (\<lambda>(a, b) cs. cs @ [f a b]) L cs = cs @ map (\<lambda>(a, b). f a b) L"
  by (induction L arbitrary: cs) auto

lemma fold_append_lists: "fold (\<lambda>i cs. cs @ g i) xs cs = cs @ concat (map g xs)"
  by (induction xs arbitrary: cs) auto

lemma UpdateProtection_eq:
  "UpdateProtection add is_read base i access msk cs =
     cs @ watcher_calls (if add then 1 else - 1) is_read base i
            (page_runs ((if add then access else NOT access) AND msk))"
  unfolding UpdateProtection_def Let_def IteratePages_fold watcher_calls_def
  by (rule fold_append_each)

text \<open>The runs of the pages of word \<open>i\<close> that satisfy \<open>changed\<close>, as offsets in the word.\<close>

definition word_changes :: "(nat \<Rightarrow> bool) \<Rightarrow> nat \<Rightarrow> (nat \<times> nat) list \<Rightarrow> bool" where
  "word_changes changed i runs \<longleftrightarrow> maximal_runs (\<lambda>b. b < 64 \<and> changed (64 * i + b)) runs"

lemma page_bit_word: "b < 64 \<Longrightarrow> page_bit ws (64 * i + b) = bit (ws ! i) b"
  by (simp add: page_bit_def)

lemma word_changes_page_runs:
  assumes "\<And>b. bit w b = (b < 64 \<and> changed (64 * i + b))"
  shows "word_changes changed i (page_runs w)"
proof -
  have "bit w = (\<lambda>b. b < 64 \<and> changed (64 * i + b))" using assms by (intro ext)
  then show ?thesis using page_runs_maximal[of w] by (simp add: word_changes_def)
qed

lemma changed_bits_add:
  assumes "i < 16"
  shows "bit (ws ! i AND word_mask offset sz i) b
     = (b < 64 \<and> (page_in_range offset sz (64 * i + b) \<and> page_bit ws (64 * i + b)))"
  using bit_word_mask[OF assms] by (auto simp: bit_simps page_bit_word)

lemma changed_bits_remove:
  assumes "i < 16"
  shows "bit (NOT (ws ! i) AND word_mask offset sz i) b
     = (b < 64 \<and> (page_in_range offset sz (64 * i + b) \<and> \<not> page_bit ws (64 * i + b)))"
  using bit_word_mask[OF assms] by (auto simp: bit_simps page_bit_word)


text \<open>What \<open>ChangeRegionState<t, d>\<close> tells the tracker about word \<open>i\<close>: one call for
  each run, inside the word, of pages of the range whose protection changes. For the CPU
  side these are the pages whose write tracking differs from the new one; for the GPU side
  first the pages that become write-tracked, then the pages whose read tracking changes.\<close>

definition change_notes ::
  "Type \<Rightarrow> bool \<Rightarrow> RegionManager \<Rightarrow> u64 \<Rightarrow> u64 \<Rightarrow> nat \<Rightarrow> call list \<Rightarrow> bool" where
  "change_notes t d r offset sz i ns \<longleftrightarrow>
     (case t of
        CPU \<Rightarrow> (\<exists>runs.
          word_changes (\<lambda>p. page_in_range offset sz p \<and> write_tracked r p = d) i runs
          \<and> ns = watcher_calls (if d then - 1 else 1) False (cpu_addr r) i runs)
      | GPU \<Rightarrow> (\<exists>wruns rruns.
          word_changes (\<lambda>p. page_in_range offset sz p \<and> \<not> write_tracked r p) i wruns
          \<and> word_changes (\<lambda>p. page_in_range offset sz p \<and> read_tracked r p \<noteq> d) i rruns
          \<and> ns = watcher_calls 1 False (cpu_addr r) i wruns
                 @ watcher_calls (if d then 1 else - 1) True (cpu_addr r) i rruns))"

definition crs_notes :: "Type \<Rightarrow> bool \<Rightarrow> RegionManager \<Rightarrow> u64 \<Rightarrow> u64 \<Rightarrow> nat \<Rightarrow> call list" where
  "crs_notes t d r offset sz i =
     crs_calls t d (cpu_addr r) i (word_mask offset sz i)
       (cpu r ! i) (gpu r ! i) (write_bits r ! i) (read_bits r ! i) []"

lemma crs_calls_append:
  "crs_calls t d base i m c g w rd cs = cs @ crs_calls t d base i m c g w rd []"
  by (cases t) (simp_all add: crs_calls_def UpdateProtection_eq)

lemma crs_notes_change:
  assumes "i < 16"
  shows "change_notes t d r offset sz i (crs_notes t d r offset sz i)"
proof (cases t)
  case CPU
  let ?w = "(if \<not> d then write_bits r ! i else NOT (write_bits r ! i)) AND word_mask offset sz i"
  have "word_changes (\<lambda>p. page_in_range offset sz p \<and> write_tracked r p = d) i (page_runs ?w)"
    by (rule word_changes_page_runs)
       (cases d; simp add: changed_bits_add[OF assms] changed_bits_remove[OF assms] write_tracked_def)
  moreover have "crs_notes CPU d r offset sz i
      = watcher_calls (if d then - 1 else 1) False (cpu_addr r) i (page_runs ?w)"
    by (simp add: crs_notes_def crs_calls_def UpdateProtection_eq)
  ultimately show ?thesis unfolding change_notes_def CPU by (simp only: Type.case) blast
next
  case GPU
  let ?w = "write_bits r ! i AND word_mask offset sz i"
  let ?r = "(if d then read_bits r ! i else NOT (read_bits r ! i)) AND word_mask offset sz i"
  have "word_changes (\<lambda>p. page_in_range offset sz p \<and> \<not> write_tracked r p) i (page_runs ?w)"
    by (rule word_changes_page_runs) (simp add: changed_bits_add[OF assms] write_tracked_def)
  moreover have "word_changes (\<lambda>p. page_in_range offset sz p \<and> read_tracked r p \<noteq> d) i (page_runs ?r)"
    by (rule word_changes_page_runs)
       (cases d; simp add: changed_bits_add[OF assms] changed_bits_remove[OF assms] read_tracked_def)
  moreover have "crs_notes GPU d r offset sz i
      = watcher_calls 1 False (cpu_addr r) i (page_runs ?w)
        @ watcher_calls (if d then 1 else - 1) True (cpu_addr r) i (page_runs ?r)"
    by (simp add: crs_notes_def crs_calls_def UpdateProtection_eq)
  ultimately show ?thesis unfolding change_notes_def GPU by (simp only: Type.case) blast
qed

text \<open>Claim C6, as amended. \<open>ChangeRegionState\<close> visits the words of the range in
  ascending order and, for each word, calls \<open>UpdatePageWatchers\<close> exactly once for each
  maximal run, inside that word, of pages of the range whose protection changes: one call
  covers the whole run within the word, never one call per page. A run that continues into
  the next word is reported once for each word it touches.\<close>

theorem watchers_once_per_run_in_word:
  assumes "wf_region r"
  shows "\<exists>r' notes.
     ChangeRegionState t d addr sz (r, cs)
       = Some (r', cs @ concat (map notes
            [first_word (addr - cpu_addr r) sz..<end_word (addr - cpu_addr r) sz]))
     \<and> (\<forall>i. first_word (addr - cpu_addr r) sz \<le> i \<and> i < end_word (addr - cpu_addr r) sz
           \<longrightarrow> change_notes t d r (addr - cpu_addr r) sz i (notes i))"
proof -
  let ?o = "addr - cpu_addr r"
  have "(\<lambda>i. crs_calls t d (cpu_addr r) i (word_mask ?o sz i)
                        (cpu r ! i) (gpu r ! i) (write_bits r ! i) (read_bits r ! i))
        = (\<lambda>i cs. cs @ crs_notes t d r ?o sz i)"
    unfolding crs_notes_def by (intro ext) (rule crs_calls_append)
  then have "fold (\<lambda>i. crs_calls t d (cpu_addr r) i (word_mask ?o sz i)
                        (cpu r ! i) (gpu r ! i) (write_bits r ! i) (read_bits r ! i))
             [first_word ?o sz..<end_word ?o sz] cs
        = fold (\<lambda>i cs. cs @ crs_notes t d r ?o sz i) [first_word ?o sz..<end_word ?o sz] cs"
    by (rule arg_cong[where f = "\<lambda>f. fold f _ _"])
  also have "\<dots> = cs @ concat (map (crs_notes t d r ?o sz) [first_word ?o sz..<end_word ?o sz])"
    by (rule fold_append_lists)
  finally have "ChangeRegionState t d addr sz (r, cs)
       = Some (region_after (crs_cpu_op t d) (crs_gpu_op t d) (crs_write_op t d) (crs_read_op t d) ?o sz r,
           cs @ concat (map (crs_notes t d r ?o sz) [first_word ?o sz..<end_word ?o sz]))"
    using ChangeRegionState_eq[OF assms, of t d addr sz cs] by simp
  moreover have "change_notes t d r ?o sz i (crs_notes t d r ?o sz i)" if "i < end_word ?o sz" for i
    using that end_word_le[of ?o sz] by (intro crs_notes_change) simp
  ultimately show ?thesis by blast
qed

definition boundary_region :: "(RegionManager \<times> call list) option" where
  "boundary_region =
     ChangeRegionState CPU False 0x1003F000 0x2000 (RegionManager_new 0x10000000, [])"

lemma boundary_region_calls:
  "map_option snd boundary_region
     = Some [UpdatePageWatchers 1 False 0x1003F000 0x1000, UpdatePageWatchers 1 False 0x10040000 0x1000]"
  by code_simp

lemma boundary_region_pages:
  "\<not> write_tracked (RegionManager_new 0x10000000) 62"
  "\<not> write_tracked (RegionManager_new 0x10000000) 63"
  "\<not> write_tracked (RegionManager_new 0x10000000) 64"
  "\<not> write_tracked (RegionManager_new 0x10000000) 65"
  "\<not> write_tracked (fst (the boundary_region)) 62"
  "write_tracked (fst (the boundary_region)) 63"
  "write_tracked (fst (the boundary_region)) 64"
  "\<not> write_tracked (fst (the boundary_region)) 65"
  by code_simp+


theorem watchers_once_per_run_in_word_witness:
  "wf_region (RegionManager_new 0x10000000)
   \<and> (\<exists>r' notes.
     ChangeRegionState CPU False 0x1003F000 0x2000 (RegionManager_new 0x10000000, [])
       = Some (r', [] @ concat (map notes
            [first_word (0x1003F000 - cpu_addr (RegionManager_new 0x10000000)) 0x2000
              ..<end_word (0x1003F000 - cpu_addr (RegionManager_new 0x10000000)) 0x2000]))
     \<and> (\<forall>i. first_word (0x1003F000 - cpu_addr (RegionManager_new 0x10000000)) 0x2000 \<le> i
             \<and> i < end_word (0x1003F000 - cpu_addr (RegionManager_new 0x10000000)) 0x2000
           \<longrightarrow> change_notes CPU False (RegionManager_new 0x10000000)
                 (0x1003F000 - cpu_addr (RegionManager_new 0x10000000)) 0x2000 i (notes i)))"
  using wf_new[of "0x10000000"]
    watchers_once_per_run_in_word[OF wf_new[of "0x10000000"],
      where t = CPU and d = False and addr = "0x1003F000" and sz = "0x2000" and cs = "[]"]
  by (rule conjI)

text \<open>Claim C6 as stated fails for a run that crosses a word boundary. On a fresh region,
  \<open>ChangeRegionState<CPU, false>\<close> over pages 63 and 64 changes the protection of exactly
  these two adjacent pages (pages 62 and 65 stay as they were), and the tracker is called
  twice: once for page 63, the last page of word 0, and once for page 64, the first page of
  word 1.\<close>

theorem boundary_run_notified_per_word:
  "map_option snd boundary_region
     = Some [UpdatePageWatchers 1 False 0x1003F000 0x1000, UpdatePageWatchers 1 False 0x10040000 0x1000]
   \<and> \<not> write_tracked (RegionManager_new 0x10000000) 62
   \<and> \<not> write_tracked (RegionManager_new 0x10000000) 63
   \<and> \<not> write_tracked (RegionManager_new 0x10000000) 64
   \<and> \<not> write_tracked (RegionManager_new 0x10000000) 65
   \<and> \<not> write_tracked (fst (the boundary_region)) 62
   \<and> write_tracked (fst (the boundary_region)) 63
   \<and> write_tracked (fst (the boundary_region)) 64
   \<and> \<not> write_tracked (fst (the boundary_region)) 65"
  using boundary_region_calls boundary_region_pages by simp


section \<open>The ranges reported by ForEachModifiedRange\<close>

lemma runs_within_bounded_maximal:
  assumes "runs_within P lo hi L" "\<And>p. p < lo \<Longrightarrow> \<not> P p" "\<And>p. hi \<le> p \<Longrightarrow> \<not> P p"
  shows "maximal_runs P L"
proof -
  have "maximal_run P s n" if "(s, n) \<in> set L" for s n
  proof -
    from assms(1) that have f: "lo \<le> s" "0 < n" "s + n \<le> hi" "\<forall>p. s \<le> p \<and> p < s + n \<longrightarrow> P p"
      "lo < s \<longrightarrow> \<not> P (s - 1)" "s + n < hi \<longrightarrow> \<not> P (s + n)"
      unfolding runs_within_def by auto
    have "\<not> P (s + n)" using f(3,6) assms(3)[of "s + n"] by (cases "s + n < hi") auto
    moreover have "0 < s \<longrightarrow> \<not> P (s - 1)"
      using f(1,5) assms(2)[of "s - 1"] by (cases "lo < s") auto
    ultimately show ?thesis using f unfolding maximal_run_def by simp
  qed
  moreover have "\<exists>(s, n) \<in> set L. s \<le> p \<and> p < s + n" if "P p" for p
  proof -
    have "p < hi" using that assms(3)[of p] by (cases "p < hi") auto
    moreover have "lo \<le> p" using that assms(2)[of p] by (cases "lo \<le> p") auto
    ultimately show ?thesis using that assms(1) unfolding runs_within_def by simp
  qed
  ultimately show ?thesis
    using assms(1) unfolding maximal_runs_def runs_within_def by auto
qed

lemma runs_within_gap:
  assumes "runs_within P lo k V" "k \<le> k'" "\<And>p. k \<le> p \<Longrightarrow> p < k' \<Longrightarrow> \<not> P p"
  shows "runs_within P lo k' V"
proof -
  have 1: "lo \<le> a \<and> 0 < b \<and> a + b \<le> k' \<and> (\<forall>p. a \<le> p \<and> p < a + b \<longrightarrow> P p)
      \<and> (lo < a \<longrightarrow> \<not> P (a - 1)) \<and> (a + b < k' \<longrightarrow> \<not> P (a + b))" if "(a, b) \<in> set V" for a b
  proof -
    from assms(1) that have f: "lo \<le> a" "0 < b" "a + b \<le> k" "\<forall>p. a \<le> p \<and> p < a + b \<longrightarrow> P p"
      "lo < a \<longrightarrow> \<not> P (a - 1)" "a + b < k \<longrightarrow> \<not> P (a + b)"
      unfolding runs_within_def by auto
    have "a + b < k' \<longrightarrow> \<not> P (a + b)"
      using f(3,6) assms(3)[of "a + b"] by (cases "a + b < k") auto
    with f assms(2) show ?thesis by simp
  qed
  have 3: "\<exists>(a, b) \<in> set V. a \<le> p \<and> p < a + b" if "lo \<le> p" "p < k'" "P p" for p
  proof -
    have "p < k" using that assms(3)[of p] by (cases "p < k") auto
    with that assms(1) show ?thesis unfolding runs_within_def by simp
  qed
  show ?thesis
    unfolding runs_within_def using 1 3 assms(1)[unfolded runs_within_def] by blast
qed

lemma runs_within_snoc_new:
  assumes V: "runs_within P lo k V" and "lo \<le> k" "k \<le> s" "0 < n"
    and zeros: "\<And>p. k \<le> p \<Longrightarrow> p < s \<Longrightarrow> \<not> P p"
    and ones: "\<And>p. s \<le> p \<Longrightarrow> p < s + n \<Longrightarrow> P p"
    and before: "\<And>a b. (a, b) \<in> set V \<Longrightarrow> a + b < s"
  shows "runs_within P lo (s + n) (V @ [(s, n)])"
proof -
  have old: "lo \<le> a \<and> 0 < b \<and> a + b \<le> s + n \<and> (\<forall>p. a \<le> p \<and> p < a + b \<longrightarrow> P p)
      \<and> (lo < a \<longrightarrow> \<not> P (a - 1)) \<and> (a + b < s + n \<longrightarrow> \<not> P (a + b))" if "(a, b) \<in> set V" for a b
  proof -
    from V that have f: "lo \<le> a" "0 < b" "a + b \<le> k" "\<forall>p. a \<le> p \<and> p < a + b \<longrightarrow> P p"
      "lo < a \<longrightarrow> \<not> P (a - 1)" "a + b < k \<longrightarrow> \<not> P (a + b)"
      unfolding runs_within_def by auto
    have "\<not> P (a + b)"
      using f(3,6) zeros[of "a + b"] before[OF that] by (cases "a + b < k") auto
    with f assms(3) show ?thesis by simp
  qed
  have new_lower: "\<not> P (s - 1)" if "lo < s"
  proof (cases "k \<le> s - 1")
    case True
    then show ?thesis using zeros[of "s - 1"] that by simp
  next
    case False
    show ?thesis
    proof
      assume "P (s - 1)"
      moreover have "lo \<le> s - 1" "s - 1 < k" using that False by simp_all
      ultimately obtain a b where "(a, b) \<in> set V" "s - 1 < a + b"
        using V unfolding runs_within_def by blast
      then show False using before[of a b] by simp
    qed
  qed
  have 1: "\<forall>(a, b) \<in> set (V @ [(s, n)]). lo \<le> a \<and> 0 < b \<and> a + b \<le> s + n
      \<and> (\<forall>p. a \<le> p \<and> p < a + b \<longrightarrow> P p) \<and> (lo < a \<longrightarrow> \<not> P (a - 1))
      \<and> (a + b < s + n \<longrightarrow> \<not> P (a + b))"
    using old new_lower ones assms(2,3,4) by auto
  have 2: "sorted_wrt (\<lambda>a b. fst a + snd a < fst b) (V @ [(s, n)])"
    using V before unfolding runs_within_def by (auto simp: sorted_wrt_append)
  have 3: "\<exists>(a, b) \<in> set (V @ [(s, n)]). a \<le> p \<and> p < a + b"
    if "lo \<le> p" "p < s + n" "P p" for p
  proof (cases "p < k")
    case True
    then have "\<exists>(a, b) \<in> set V. a \<le> p \<and> p < a + b"
      using V that unfolding runs_within_def by simp
    then show ?thesis by auto
  next
    case False
    then have "s \<le> p" using zeros[of p] that by (cases "s \<le> p") auto
    then show ?thesis using that by simp
  qed
  show ?thesis unfolding runs_within_def using 1 2 3 by blast
qed

lemma runs_within_snoc_extend:
  assumes V: "runs_within P lo k (V0 @ [(a, b)])" and "k \<le> a + b" "0 < n"
    and ones: "\<And>p. a + b \<le> p \<Longrightarrow> p < a + b + n \<Longrightarrow> P p"
  shows "runs_within P lo (a + b + n) (V0 @ [(a, b + n)])"
proof -
  from V have last: "lo \<le> a" "0 < b" "a + b \<le> k" "\<forall>p. a \<le> p \<and> p < a + b \<longrightarrow> P p"
      "lo < a \<longrightarrow> \<not> P (a - 1)"
    unfolding runs_within_def by auto
  from V have sorted: "sorted_wrt (\<lambda>a b. fst a + snd a < fst b) V0"
      "\<And>x y. (x, y) \<in> set V0 \<Longrightarrow> x + y < a"
    unfolding runs_within_def by (auto simp: sorted_wrt_append)
  have old: "lo \<le> x \<and> 0 < y \<and> x + y \<le> a + b + n \<and> (\<forall>p. x \<le> p \<and> p < x + y \<longrightarrow> P p)
      \<and> (lo < x \<longrightarrow> \<not> P (x - 1)) \<and> (x + y < a + b + n \<longrightarrow> \<not> P (x + y))"
    if "(x, y) \<in> set V0" for x y
  proof -
    from V that have f: "lo \<le> x" "0 < y" "x + y \<le> k" "\<forall>p. x \<le> p \<and> p < x + y \<longrightarrow> P p"
      "lo < x \<longrightarrow> \<not> P (x - 1)" "x + y < k \<longrightarrow> \<not> P (x + y)"
      unfolding runs_within_def by auto
    have "x + y < k" using sorted(2)[OF that] last(2,3) by simp
    moreover have "k \<le> a + b + n" using assms(2) by simp
    ultimately show ?thesis using f by simp
  qed
  have run: "P p" if "a \<le> p" "p < a + (b + n)" for p
    using that last(4) ones[of p] by (cases "p < a + b") auto
  have 1: "\<forall>(x, y) \<in> set (V0 @ [(a, b + n)]). lo \<le> x \<and> 0 < y \<and> x + y \<le> a + b + n
      \<and> (\<forall>p. x \<le> p \<and> p < x + y \<longrightarrow> P p) \<and> (lo < x \<longrightarrow> \<not> P (x - 1))
      \<and> (x + y < a + b + n \<longrightarrow> \<not> P (x + y))"
    using old run last assms(3) by auto
  have 2: "sorted_wrt (\<lambda>a b. fst a + snd a < fst b) (V0 @ [(a, b + n)])"
    using sorted by (auto simp: sorted_wrt_append)
  have 3: "\<exists>(x, y) \<in> set (V0 @ [(a, b + n)]). x \<le> p \<and> p < x + y"
    if "lo \<le> p" "p < a + b + n" "P p" for p
  proof (cases "p < k")
    case True
    then have "\<exists>(x, y) \<in> set (V0 @ [(a, b)]). x \<le> p \<and> p < x + y"
      using V that unfolding runs_within_def by simp
    then show ?thesis by auto
  next
    case False
    then have "a \<le> p" using last(2,3) by simp
    then show ?thesis using that by simp
  qed
  show ?thesis unfolding runs_within_def using 1 2 3 by blast
qed


text \<open>The calls of the callback of \<open>ForEachModifiedRange\<close> among a list of calls, in
  order, each as (address, size).\<close>

fun callbacks :: "call list \<Rightarrow> (VAddr \<times> u64) list" where
  "callbacks [] = []"
| "callbacks (Callback a n # cs) = (a, n) # callbacks cs"
| "callbacks (UpdatePageWatchers delta is_read a n # cs) = callbacks cs"

text \<open>The callback arguments for the run of \<open>n\<close> pages that starts at page \<open>s\<close> of the
  region.\<close>

definition to_callback :: "VAddr \<Rightarrow> nat \<times> nat \<Rightarrow> VAddr \<times> u64" where
  "to_callback base run = (base + of_nat (fst run) * BYTES_PER_PAGE, of_nat (snd run) * BYTES_PER_PAGE)"

definition pending_runs :: "range_state \<Rightarrow> (nat \<times> nat) list" where
  "pending_runs st =
     (if pending st then [(pending_offset st, pending_pointer st - pending_offset st)] else [])"

definition tracks :: "VAddr \<Rightarrow> call list \<Rightarrow> (nat \<Rightarrow> bool) \<Rightarrow> nat \<Rightarrow> nat \<Rightarrow> range_state \<Rightarrow> bool" where
  "tracks base cs0 P lo k st \<longleftrightarrow>
     lo \<le> k \<and> (\<exists>out. callbacks (calls st) = callbacks cs0 @ map (to_callback base) out
        \<and> runs_within P lo k (out @ pending_runs st) \<and> (\<not> pending st \<longrightarrow> out = []))"

lemma callbacks_append [simp]: "callbacks (xs @ ys) = callbacks xs @ callbacks ys"
  by (induction xs rule: callbacks.induct) simp_all

lemma callbacks_watcher_calls [simp]: "callbacks (watcher_calls delta is_read base i runs) = []"
  by (induction runs) (auto simp: watcher_calls_def)

lemma tracks_gap:
  assumes "tracks base cs0 P lo k st" "k \<le> k'" "\<And>p. k \<le> p \<Longrightarrow> p < k' \<Longrightarrow> \<not> P p"
  shows "tracks base cs0 P lo k' st"
proof -
  from assms(1) obtain out where lok: "lo \<le> k"
    and cb: "callbacks (calls st) = callbacks cs0 @ map (to_callback base) out"
    and V: "runs_within P lo k (out @ pending_runs st)"
    and np: "\<not> pending st \<longrightarrow> out = []"
    unfolding tracks_def by blast
  have "runs_within P lo k' (out @ pending_runs st)"
    using V assms(2,3) by (rule runs_within_gap)
  then show ?thesis
    unfolding tracks_def using lok assms(2) cb np by (intro conjI exI[of _ out]) simp_all
qed

lemma tracks_on_pages:
  assumes tr: "tracks base cs0 P lo k st" and "k \<le> bo + s" "0 < n"
    and zeros: "\<And>p. k \<le> p \<Longrightarrow> p < bo + s \<Longrightarrow> \<not> P p"
    and ones: "\<And>p. bo + s \<le> p \<Longrightarrow> p < bo + s + n \<Longrightarrow> P p"
  shows "tracks base cs0 P lo (bo + s + n) (on_pages base bo s n st)"
proof -
  from tr obtain out where lok: "lo \<le> k"
    and cb: "callbacks (calls st) = callbacks cs0 @ map (to_callback base) out"
    and V: "runs_within P lo k (out @ pending_runs st)"
    and np: "\<not> pending st \<longrightarrow> out = []"
    unfolding tracks_def by blast
  have lok': "lo \<le> bo + s + n" using lok assms(2) by simp
  show ?thesis
  proof (cases "pending st")
    case False
    then have "runs_within P lo k []" using V np by (simp add: pending_runs_def)
    then have "runs_within P lo (bo + s + n) ([] @ [(bo + s, n)])"
      using lok assms(2,3) zeros ones by (intro runs_within_snoc_new) simp_all
    moreover have "pending_runs (on_pages base bo s n st) = [(bo + s, n)]"
      using False by (simp add: on_pages_def reset_def pending_runs_def)
    moreover have "calls (on_pages base bo s n st) = calls st" "pending (on_pages base bo s n st)"
      using False by (simp_all add: on_pages_def reset_def)
    ultimately show ?thesis
      unfolding tracks_def using lok' cb np False by (intro conjI exI[of _ "[]"]) simp_all
  next
    case True
    let ?po = "pending_offset st" and ?pp = "pending_pointer st"
    have pr: "pending_runs st = [(?po, ?pp - ?po)]" using True by (simp add: pending_runs_def)
    have last: "0 < ?pp - ?po" "?po + (?pp - ?po) \<le> k"
      using V unfolding pr runs_within_def by auto
    then have pp: "?po < ?pp" "?pp \<le> k" "?po + (?pp - ?po) = ?pp" by simp_all
    show ?thesis
    proof (cases "?pp = bo + s")
      case same: True
      have "runs_within P lo (?po + (?pp - ?po) + n) (out @ [(?po, ?pp - ?po + n)])"
        using V[unfolded pr] assms(2,3) ones same pp
        by (intro runs_within_snoc_extend[where k = k]) simp_all
      then have "runs_within P lo (bo + s + n) (out @ [(?po, ?pp + n - ?po)])"
        using pp same by simp
      moreover have "pending_runs (on_pages base bo s n st) = [(?po, ?pp + n - ?po)]"
        using True same by (simp add: on_pages_def pending_runs_def)
      moreover have "calls (on_pages base bo s n st) = calls st" "pending (on_pages base bo s n st)"
        using True same by (simp_all add: on_pages_def)
      ultimately show ?thesis
        unfolding tracks_def using lok' cb by (intro conjI exI[of _ out]) simp_all
    next
      case differ: False
      then have lt: "?pp < bo + s" using pp(2) assms(2) by simp
      have before: "a + b < bo + s" if "(a, b) \<in> set (out @ [(?po, ?pp - ?po)])" for a b
      proof (cases "(a, b) \<in> set out")
        case True
        then have "a + b < ?po"
          using V[unfolded pr] unfolding runs_within_def by (auto simp: sorted_wrt_append)
        then show ?thesis using pp lt by simp
      next
        case False
        then have "a = ?po" "b = ?pp - ?po" using that by auto
        then show ?thesis using pp lt by simp
      qed
      have "runs_within P lo (bo + s + n) ((out @ [(?po, ?pp - ?po)]) @ [(bo + s, n)])"
        using V[unfolded pr] lok assms(2,3) zeros ones before
        by (intro runs_within_snoc_new) simp_all
      moreover have "pending_runs (on_pages base bo s n st) = [(bo + s, n)]"
        using True differ by (simp add: on_pages_def reset_def release_def pending_runs_def)
      moreover have "pending (on_pages base bo s n st)"
        using True differ by (simp add: on_pages_def reset_def release_def)
      moreover have "of_nat ?pp - of_nat ?po = (of_nat (?pp - ?po) :: u64)"
        using pp(1) by simp
      then have "callbacks (calls (on_pages base bo s n st))
          = callbacks cs0 @ map (to_callback base) (out @ [(?po, ?pp - ?po)])"
        using True differ cb by (simp add: on_pages_def reset_def release_def to_callback_def)
      ultimately show ?thesis
        unfolding tracks_def using lok'
        by (intro conjI exI[of _ "out @ [(?po, ?pp - ?po)]"]) simp_all
    qed
  qed
qed


lemma tracks_word_runs:
  assumes "runs_of Q off hi L" "tracks base cs0 P lo (bo + off) st"
    and "\<And>b. off \<le> b \<Longrightarrow> b < hi \<Longrightarrow> P (bo + b) = Q b" "off \<le> hi"
  shows "tracks base cs0 P lo (bo + hi) (fold (\<lambda>(s, n). on_pages base bo s n) L st)"
  using assms
proof (induction arbitrary: st rule: runs_of.induct)
  case (runs_Nil lo' hi)
  have "tracks base cs0 P lo (bo + hi) st"
  proof (rule tracks_gap[OF runs_Nil.prems(1)])
    show "bo + lo' \<le> bo + hi" using runs_Nil.prems(3) by simp
    fix p assume "bo + lo' \<le> p" "p < bo + hi"
    then have "lo' \<le> p - bo" "p - bo < hi" "p = bo + (p - bo)" by simp_all
    then show "\<not> P p" using runs_Nil.hyps[of "p - bo"] runs_Nil.prems(2)[of "p - bo"] by metis
  qed
  then show ?case by simp
next
  case (runs_Cons lo' s n hi L)
  have "tracks base cs0 P lo (bo + s + n) (on_pages base bo s n st)"
  proof (rule tracks_on_pages[OF runs_Cons.prems(1)])
    show "bo + lo' \<le> bo + s" using runs_Cons.hyps(1) by simp
    show "0 < n" by (rule runs_Cons.hyps(2))
  next
    fix p assume "bo + lo' \<le> p" "p < bo + s"
    then have a: "lo' \<le> p - bo" "p - bo < s" "p = bo + (p - bo)" by simp_all
    then have "p - bo < hi" using runs_Cons.hyps(2,3) by simp
    then show "\<not> P p" using a runs_Cons.hyps(4)[of "p - bo"] runs_Cons.prems(2)[of "p - bo"] by metis
  next
    fix p assume "bo + s \<le> p" "p < bo + s + n"
    then have a: "s \<le> p - bo" "p - bo < s + n" "p = bo + (p - bo)" by simp_all
    then have "p - bo < hi" "lo' \<le> p - bo" using runs_Cons.hyps(1,3) by simp_all
    then show "P p" using a runs_Cons.hyps(5)[of "p - bo"] runs_Cons.prems(2)[of "p - bo"] by metis
  qed
  then have "tracks base cs0 P lo (bo + (s + n)) (on_pages base bo s n st)"
    by (simp add: add.assoc)
  then have "tracks base cs0 P lo (bo + hi)
      (fold (\<lambda>(s, n). on_pages base bo s n) L (on_pages base bo s n st))"
    using runs_Cons.prems(2) runs_Cons.hyps(1,3) by (intro runs_Cons.IH) simp_all
  then show ?case by simp
qed

lemma tracks_calls:
  assumes "tracks base cs0 P lo k st" "callbacks cs' = callbacks (calls st)"
  shows "tracks base cs0 P lo k (st\<lparr>calls := cs'\<rparr>)"
proof -
  from assms(1) obtain out where lok: "lo \<le> k"
    and cb: "callbacks (calls st) = callbacks cs0 @ map (to_callback base) out"
    and V: "runs_within P lo k (out @ pending_runs st)"
    and np: "\<not> pending st \<longrightarrow> out = []"
    unfolding tracks_def by blast
  have "pending_runs (st\<lparr>calls := cs'\<rparr>) = pending_runs st" by (simp add: pending_runs_def)
  then show ?thesis
    unfolding tracks_def using lok cb V np assms(2) by (intro conjI exI[of _ out]) simp_all
qed

lemma callbacks_fe_calls [simp]:
  "callbacks (fe_calls t clear base i m w rd cs) = callbacks cs"
  by (cases t) (simp_all add: fe_calls_def UpdateProtection_eq)

text \<open>The pages that \<open>ForEachModifiedRange<t, _>\<close> is to report: the pages of the queried
  range that are marked modified on side \<open>t\<close>.\<close>

definition modified_in_range :: "Type \<Rightarrow> RegionManager \<Rightarrow> u64 \<Rightarrow> u64 \<Rightarrow> nat \<Rightarrow> bool" where
  "modified_in_range t r offset sz p \<longleftrightarrow> page_in_range offset sz p \<and> page_bit (Span t r) p"

lemma tracks_fe_step:
  assumes "i < 16" "tracks base cs0 (modified_in_range t r offset sz) lo (64 * i) st"
  shows "tracks base cs0 (modified_in_range t r offset sz) lo (64 * Suc i)
     (fe_step t clear base i (word_mask offset sz i)
        (cpu r ! i) (gpu r ! i) (write_bits r ! i) (read_bits r ! i) st)"
proof -
  let ?w = "Span t r ! i AND word_mask offset sz i"
  let ?st = "st\<lparr>calls := fe_calls t clear base i (word_mask offset sz i)
                 (write_bits r ! i) (read_bits r ! i) (calls st)\<rparr>"
  have w: "(case t of CPU \<Rightarrow> cpu r ! i | GPU \<Rightarrow> gpu r ! i) = Span t r ! i"
    by (cases t) (simp_all add: Span_def)
  have T: "tracks base cs0 (modified_in_range t r offset sz) lo (64 * i + 0) ?st"
    using assms(2) by (intro tracks_calls) simp_all
  have "tracks base cs0 (modified_in_range t r offset sz) lo (64 * i + 64)
      (fold (\<lambda>(s, n). on_pages base (64 * i) s n) (page_runs ?w) ?st)"
  proof (rule tracks_word_runs[OF page_runs_runs[of ?w] T])
    show "(0::nat) \<le> 64" by simp
    fix b :: nat assume "b < 64"
    then show "modified_in_range t r offset sz (64 * i + b) = bit ?w b"
      by (auto simp: modified_in_range_def changed_bits_add[OF assms(1)])
  qed
  then show ?thesis
    by (simp add: fe_step_def w IteratePages_fold mult.commute add.commute)
qed

lemma fold_upt_invariant:
  assumes "I a s" "a \<le> b" "\<And>i s. a \<le> i \<Longrightarrow> i < b \<Longrightarrow> I i s \<Longrightarrow> I (Suc i) (f i s)"
  shows "I b (fold f [a..<b] s)"
  using assms(2,3)
proof (induction b)
  case 0
  then show ?case using assms(1) by simp
next
  case (Suc b)
  show ?case
  proof (cases "a = Suc b")
    case True
    then show ?thesis using assms(1) by simp
  next
    case False
    then have "a \<le> b" using Suc.prems(1) by simp
    then have "I b (fold f [a..<b] s)" using Suc.prems(2) by (intro Suc.IH) simp_all
    then show ?thesis using \<open>a \<le> b\<close> Suc.prems(2)[of b] by simp
  qed
qed

lemma modified_in_range_words:
  assumes "modified_in_range t r offset sz p"
  shows "64 * first_word offset sz \<le> p" "p < 64 * end_word offset sz"
proof -
  have w: "first_word offset sz \<le> p div 64" "p div 64 < end_word offset sz"
    using assms in_range_word[of offset sz p] by (simp_all add: modified_in_range_def)
  have "64 * first_word offset sz \<le> 64 * (p div 64)" using w(1) by simp
  also have "\<dots> \<le> p" by simp
  finally show "64 * first_word offset sz \<le> p" .
  have "p < 64 * (p div 64) + 64" using mod_less_divisor[of 64 p] mult_div_mod_eq[of 64 p] by linarith
  also have "\<dots> = 64 * Suc (p div 64)" by simp
  also have "\<dots> \<le> 64 * end_word offset sz" using w(2) by (intro mult_le_mono2) simp
  finally show "p < 64 * end_word offset sz" .
qed


lemma ForEachModifiedRange_runs:
  assumes "wf_region r"
  shows "\<exists>r' cs' runs.
     ForEachModifiedRange t clear addr sz (r, cs) = Some (r', cs')
     \<and> callbacks cs' = callbacks cs @ map (to_callback (cpu_addr r)) runs
     \<and> maximal_runs (modified_in_range t r (addr - cpu_addr r) sz) runs"
proof -
  let ?o = "addr - cpu_addr r"
  let ?P = "modified_in_range t r ?o sz"
  let ?lo = "64 * first_word ?o sz"
  let ?f = "\<lambda>i. fe_step t clear (cpu_addr r) i (word_mask ?o sz i)
                        (cpu r ! i) (gpu r ! i) (write_bits r ! i) (read_bits r ! i)"
  define fin where "fin = fold ?f [first_word ?o sz..<end_word ?o sz] (fe_init cs)"
  have init: "tracks (cpu_addr r) cs ?P ?lo (64 * first_word ?o sz) (fe_init cs)"
    unfolding tracks_def
    by (intro conjI exI[of _ "[]"]) (simp_all add: fe_init_def pending_runs_def runs_within_def)
  have "tracks (cpu_addr r) cs ?P ?lo (64 * end_word ?o sz) fin"
    unfolding fin_def
  proof (rule fold_upt_invariant[where I = "\<lambda>i st. tracks (cpu_addr r) cs ?P ?lo (64 * i) st"])
    show "tracks (cpu_addr r) cs ?P ?lo (64 * first_word ?o sz) (fe_init cs)" by (rule init)
    show "first_word ?o sz \<le> end_word ?o sz" by (rule first_word_le_end_word)
    fix i st
    assume "i < end_word ?o sz" "tracks (cpu_addr r) cs ?P ?lo (64 * i) st"
    then show "tracks (cpu_addr r) cs ?P ?lo (64 * Suc i) (?f i st)"
      using end_word_le[of ?o sz] by (intro tracks_fe_step) simp_all
  qed
  then obtain out where
    cb: "callbacks (calls fin) = callbacks cs @ map (to_callback (cpu_addr r)) out"
    and V: "runs_within ?P ?lo (64 * end_word ?o sz) (out @ pending_runs fin)"
    unfolding tracks_def by blast
  have "maximal_runs ?P (out @ pending_runs fin)"
  proof (rule runs_within_bounded_maximal[OF V])
    fix p
    show "p < ?lo \<Longrightarrow> \<not> ?P p"
      using modified_in_range_words(1)[of t r ?o sz p] by auto
    show "64 * end_word ?o sz \<le> p \<Longrightarrow> \<not> ?P p"
      using modified_in_range_words(2)[of t r ?o sz p] by auto
  qed
  moreover have "callbacks (fe_final (cpu_addr r) fin)
      = callbacks cs @ map (to_callback (cpu_addr r)) (out @ pending_runs fin)"
  proof (cases "pending fin")
    case False
    then show ?thesis using cb by (simp add: fe_final_def pending_runs_def)
  next
    case True
    then have "0 < pending_pointer fin - pending_offset fin"
      using V unfolding runs_within_def pending_runs_def by auto
    then have "of_nat (pending_pointer fin) - of_nat (pending_offset fin)
        = (of_nat (pending_pointer fin - pending_offset fin) :: u64)"
      by simp
    then show ?thesis
      using True cb by (simp add: fe_final_def pending_runs_def release_def to_callback_def)
  qed
  ultimately show ?thesis
    using ForEachModifiedRange_eq[OF assms, of t clear addr sz cs] unfolding fin_def by blast
qed


text \<open>Claim C1. \<open>ForEachModifiedRange\<close> calls its callback exactly once for each maximal
  contiguous run of pages of the queried range that are marked modified on the given side,
  in ascending order of address, also where a run continues from one 64-page word into the
  next. The callbacks made are the runs \<open>runs\<close>, each as (address of the first page, size
  in bytes).\<close>

theorem modified_ranges_are_maximal_runs:
  assumes "wf_region r"
  shows "\<exists>r' cs' runs.
     ForEachModifiedRange t clear addr sz (r, cs) = Some (r', cs')
     \<and> callbacks cs' = callbacks cs @ map (to_callback (cpu_addr r)) runs
     \<and> maximal_runs (modified_in_range t r (addr - cpu_addr r) sz) runs"
  using assms by (rule ForEachModifiedRange_runs)

definition example_region :: RegionManager where
  "example_region =
     fst (the (do {
       rc \<leftarrow> ChangeRegionState GPU True 0x10002000 0x3000 (RegionManager_new 0x10000000, []);
       ChangeRegionState GPU True 0x10007000 0x2000 rc
     }))"

lemma example_region_eq:
  "example_region =
     \<lparr>cpu_addr = 0x10000000,
      cpu = replicate 16 (NOT 0),
      gpu = 0x19C # replicate 15 0,
      write_bits = NOT 0x19C # replicate 15 (NOT 0),
      read_bits = NOT 0x19C # replicate 15 (NOT 0)\<rparr>"
  by code_simp

lemma example_region_pages:
  "\<not> gpu_modified example_region 0" "\<not> gpu_modified example_region 1"
  "gpu_modified example_region 2" "gpu_modified example_region 3"
  "gpu_modified example_region 4" "\<not> gpu_modified example_region 5"
  "\<not> gpu_modified example_region 6" "gpu_modified example_region 7"
  "gpu_modified example_region 8" "\<not> gpu_modified example_region 9"
  unfolding example_region_eq by (simp_all add: gpu_modified_def page_bit_def)

lemma example_region_wf: "wf_region example_region"
  unfolding example_region_eq by (simp add: wf_region_def)

lemma example_region_callbacks:
  "map_option (\<lambda>rc. callbacks (snd rc))
       (ForEachModifiedRange GPU False 0x10000000 0xA000 (example_region, []))
     = Some [(0x10002000, 0x3000), (0x10007000, 0x2000)]"
  unfolding example_region_eq by code_simp

theorem modified_ranges_are_maximal_runs_witness:
  "wf_region example_region
   \<and> (\<exists>r' cs' runs.
     ForEachModifiedRange GPU False 0x10000000 0xA000 (example_region, []) = Some (r', cs')
     \<and> callbacks cs' = callbacks [] @ map (to_callback (cpu_addr example_region)) runs
     \<and> maximal_runs (modified_in_range GPU example_region (0x10000000 - cpu_addr example_region) 0xA000) runs)
   \<and> map_option (\<lambda>rc. callbacks (snd rc))
       (ForEachModifiedRange GPU False 0x10000000 0xA000 (example_region, []))
     = Some [(0x10002000, 0x3000), (0x10007000, 0x2000)]
   \<and> \<not> gpu_modified example_region 0 \<and> \<not> gpu_modified example_region 1
   \<and> gpu_modified example_region 2 \<and> gpu_modified example_region 3
   \<and> gpu_modified example_region 4 \<and> \<not> gpu_modified example_region 5
   \<and> \<not> gpu_modified example_region 6 \<and> gpu_modified example_region 7
   \<and> gpu_modified example_region 8 \<and> \<not> gpu_modified example_region 9"
  using example_region_wf
    modified_ranges_are_maximal_runs[OF example_region_wf,
      where t = GPU and clear = False and addr = "0x10000000" and sz = "0xA000" and cs = "[]"]
    example_region_callbacks example_region_pages
  by (intro conjI)


section \<open>Clipping of queries and empty queries\<close>

lemma word_modified_iff:
  assumes "i < 16"
  shows "Span t r ! i AND word_mask offset sz i \<noteq> 0
     \<longleftrightarrow> (\<exists>b < 64. modified_in_range t r offset sz (64 * i + b))"
proof -
  have "Span t r ! i AND word_mask offset sz i \<noteq> 0
      \<longleftrightarrow> (\<exists>b. bit (Span t r ! i AND word_mask offset sz i) b)"
    by (auto simp: bit_eq_iff dest: bit_u64_less)
  then show ?thesis
    unfolding changed_bits_add[OF assms] modified_in_range_def by auto
qed

lemma IsRegionModified_eq:
  assumes "wf_region r"
  shows "IsRegionModified t r offset sz = Some (\<exists>p. modified_in_range t r offset sz p)"
proof -
  let ?f = "\<lambda>index msk result. do {
          state_word \<leftarrow> word_at (Span t r) index;
          let word = state_word AND msk;
          if word \<noteq> 0 then Some (True, True) else Some (False, result)
        }"
  let ?I = "\<lambda>w s. \<not> s \<and> (\<forall>i. first_word offset sz \<le> i \<and> i < w
               \<longrightarrow> Span t r ! i AND word_mask offset sz i = 0)"
  let ?Q = "\<lambda>s. s \<and> (\<exists>i < 16. Span t r ! i AND word_mask offset sz i \<noteq> 0)"
  have len: "length (Span t r) = 16"
    using assms by (cases t) (simp_all add: Span_def wf_region_def)
  have "\<exists>s'. IterateWords offset sz ?f False = Some s' \<and> (?Q s' \<or> ?I (end_word offset sz) s')"
  proof (rule IterateWords_rule[where I = ?I and Q = ?Q])
    show "?I (first_word offset sz) False" by auto
    fix w s
    assume a: "first_word offset sz \<le> w" "w < end_word offset sz" "?I w s"
    have w16: "w < 16" using a(2) end_word_le[of offset sz] by simp
    show "\<exists>b s'. ?f w (word_mask offset sz w) s = Some (b, s')
        \<and> (if b then ?Q s' else ?I (Suc w) s')"
    proof (cases "Span t r ! w AND word_mask offset sz w = 0")
      case True
      then have "?f w (word_mask offset sz w) s = Some (False, s)"
        using w16 len by (simp add: word_at_def)
      moreover have "?I (Suc w) s" using a(3) True by (auto simp: less_Suc_eq)
      ultimately show ?thesis by (intro exI[of _ False] exI[of _ s]) simp
    next
      case False
      then have "?f w (word_mask offset sz w) s = Some (True, True)"
        using w16 len by (simp add: word_at_def)
      moreover have "?Q True" using False w16 by auto
      ultimately show ?thesis by (intro exI[of _ True]) simp
    qed
  qed
  then obtain s' where res: "IterateWords offset sz ?f False = Some s'"
    and post: "?Q s' \<or> ?I (end_word offset sz) s'" by blast
  have "s' = (\<exists>p. modified_in_range t r offset sz p)"
  proof (cases s')
    case True
    then obtain i where "i < 16" "Span t r ! i AND word_mask offset sz i \<noteq> 0"
      using post by auto
    then show ?thesis using True word_modified_iff[of i t r offset sz] by auto
  next
    case False
    then have zero: "\<And>i. first_word offset sz \<le> i \<Longrightarrow> i < end_word offset sz
        \<Longrightarrow> Span t r ! i AND word_mask offset sz i = 0"
      using post by auto
    have "\<not> modified_in_range t r offset sz p" for p
    proof
      assume m: "modified_in_range t r offset sz p"
      then have w: "first_word offset sz \<le> p div 64" "p div 64 < end_word offset sz"
        using in_range_word[of offset sz p] by (simp_all add: modified_in_range_def)
      then have "p div 64 < 16" using end_word_le[of offset sz] by simp
      moreover have "modified_in_range t r offset sz (64 * (p div 64) + p mod 64)" using m by simp
      moreover have "p mod 64 < 64" by simp
      ultimately have "Span t r ! (p div 64) AND word_mask offset sz (p div 64) \<noteq> 0"
        using word_modified_iff[of "p div 64" t r offset sz] by blast
      then show False using zero[OF w] by simp
    qed
    then show ?thesis using False by simp
  qed
  then show ?thesis using res by (simp add: IsRegionModified_def)
qed

lemma empty_query: "\<not> query_nonempty offset 0"
  by (simp add: query_nonempty_def query_start_def query_end_def)

lemma empty_query_pages: "\<not> page_in_range offset 0 p"
  by (simp add: page_in_range_def query_start_def query_end_def)

lemma ChangeRegionState_empty: "ChangeRegionState t d addr 0 rc = Some rc"
  by (simp add: ChangeRegionState_def IterateWords_empty empty_query)

lemma ForEachModifiedRange_empty: "ForEachModifiedRange t clear addr 0 (r, cs) = Some (r, cs)"
  by (simp add: ForEachModifiedRange_def IterateWords_empty empty_query)

lemma IsRegionModified_empty: "IsRegionModified t r offset 0 = Some False"
  by (simp add: IsRegionModified_def IterateWords_empty empty_query)

lemma query_end_exact:
  assumes "sint offset + uint sz < 2 ^ 63"
  shows "query_end offset sz = nat (max (sint offset + uint sz) 0)"
proof -
  have a: "- (2 ^ 63) \<le> sint offset" using sint_ge[of offset] by simp
  have b: "sint offset \<le> sint offset + uint sz" by simp
  have lo: "- (2 ^ 63) \<le> sint offset + uint sz" using a b by (rule order_trans)
  have "offset + sz = word_of_int (sint offset) + word_of_int (uint sz)" by simp
  also have "\<dots> = word_of_int (sint offset + uint sz)" by (simp only: wi_hom_add)
  finally have "sint (offset + sz) = signed_take_bit 63 (sint offset + uint sz)"
    by (simp only: sint_sbintrunc') simp
  also have "\<dots> = sint offset + uint sz"
    using lo assms by (rule signed_take_bit_int_eq_self)
  finally show ?thesis by (simp add: query_end_def)
qed


definition same_page :: "RegionManager \<Rightarrow> RegionManager \<Rightarrow> nat \<Rightarrow> bool" where
  "same_page r r' p \<longleftrightarrow>
     cpu_modified r' p = cpu_modified r p \<and> gpu_modified r' p = gpu_modified r p
     \<and> write_tracked r' p = write_tracked r p \<and> read_tracked r' p = read_tracked r p"

lemma visited_words:
  "IterateWords offset sz (\<lambda>i m acc. Some (False, acc @ [(i, m)])) []
     = Some (map (\<lambda>i. (i, word_mask offset sz i)) [first_word offset sz..<end_word offset sz])"
proof -
  let ?f = "\<lambda>i m acc. Some (False, acc @ [(i :: nat, m :: u64)])"
  let ?I = "\<lambda>w acc. acc = map (\<lambda>i. (i, word_mask offset sz i)) [first_word offset sz..<w]"
  have "\<exists>s'. IterateWords offset sz ?f [] = Some s' \<and> (False \<or> ?I (end_word offset sz) s')"
  proof (rule IterateWords_rule[where I = ?I and Q = "\<lambda>s. False"])
    show "?I (first_word offset sz) []" by simp
    fix w s
    assume "first_word offset sz \<le> w" "?I w s"
    then have "?I (Suc w) (s @ [(w, word_mask offset sz w)])" by simp
    then show "\<exists>b s'. ?f w (word_mask offset sz w) s = Some (b, s')
        \<and> (if b then False else ?I (Suc w) s')"
      by (intro exI[of _ False] exI[of _ "s @ [(w, word_mask offset sz w)]"])
         (simp only: if_False simp_thms)
  qed
  then show ?thesis by auto
qed

text \<open>Claim C8. Every operation works on the queried range clipped to the region: it
  acts on exactly the pages of the region that meet the range, and on nothing else.
  \<open>IterateWords\<close> hands each word that holds such a page to its callback, once and in
  ascending order; every word handed over has an index below \<open>NUM_REGION_WORDS\<close>, and the
  bits of its mask are exactly the pages of the region that meet the range. On a region
  whose arrays have \<open>NUM_REGION_WORDS\<close> words every operation returns: no array is indexed
  out of bounds and no shift is undefined (either would be \<open>None\<close>).
  \<open>ChangeRegionState\<close> sets the modified bit of every page of the region inside the range
  and leaves every page outside the range as it was. \<open>ForEachModifiedRange\<close> reports
  exactly the maximal runs of the modified pages of the region inside the range, clears
  the modified bits of exactly these pages when \<open>clear\<close> is set, and leaves every page
  outside the range as it was. \<open>IsRegionModified\<close> answers whether a page of the region
  inside the range is modified. A range of length zero changes nothing and makes no
  call.\<close>

theorem queries_are_clipped:
  assumes "wf_region r"
  shows "(\<exists>L. IterateWords offset sz (\<lambda>i m acc. Some (False, acc @ [(i, m)])) [] = Some L
            \<and> (\<forall>(i, m) \<in> set L. i < unat NUM_REGION_WORDS
                 \<and> (\<forall>b. bit m b \<longleftrightarrow> b < 64 \<and> page_in_range offset sz (64 * i + b)))
            \<and> sorted_wrt (<) (map fst L)
            \<and> (\<forall>p. page_in_range offset sz p \<longrightarrow> p div 64 \<in> fst ` set L))
    \<and> (\<exists>r' cs'. ChangeRegionState t d addr sz (r, cs) = Some (r', cs') \<and> wf_region r'
            \<and> (\<forall>p. p < 1024 \<and> \<not> page_in_range (addr - cpu_addr r) sz p \<longrightarrow> same_page r r' p)
            \<and> (\<forall>p. page_in_range (addr - cpu_addr r) sz p \<longrightarrow> page_bit (Span t r') p = d))
    \<and> (\<exists>r' cs' runs. ForEachModifiedRange t clear addr sz (r, cs) = Some (r', cs') \<and> wf_region r'
            \<and> (\<forall>p. p < 1024 \<and> \<not> page_in_range (addr - cpu_addr r) sz p \<longrightarrow> same_page r r' p)
            \<and> callbacks cs' = callbacks cs @ map (to_callback (cpu_addr r)) runs
            \<and> maximal_runs (\<lambda>p. page_in_range (addr - cpu_addr r) sz p \<and> page_bit (Span t r) p) runs
            \<and> (\<forall>p. p < 1024 \<longrightarrow> page_bit (Span t r') p
                  = (page_bit (Span t r) p \<and> \<not> (clear \<and> page_in_range (addr - cpu_addr r) sz p))))
    \<and> IsRegionModified t r offset sz
         = Some (\<exists>p. page_in_range offset sz p \<and> page_bit (Span t r) p)
    \<and> (sz = 0 \<longrightarrow> ChangeRegionState t d addr sz (r, cs) = Some (r, cs)
                  \<and> ForEachModifiedRange t clear addr sz (r, cs) = Some (r, cs)
                  \<and> IsRegionModified t r offset sz = Some False)"
proof (intro conjI)
  let ?L = "map (\<lambda>i. (i, word_mask offset sz i)) [first_word offset sz..<end_word offset sz]"
  have "i < unat NUM_REGION_WORDS
      \<and> (\<forall>b. bit (word_mask offset sz i) b \<longleftrightarrow> b < 64 \<and> page_in_range offset sz (64 * i + b))"
    if "i < end_word offset sz" for i
  proof -
    have "i < 16" using that end_word_le[of offset sz] by simp
    then show ?thesis by (simp add: bit_word_mask consts_simps)
  qed
  then have masks: "\<forall>(i, m) \<in> set ?L. i < unat NUM_REGION_WORDS
                 \<and> (\<forall>b. bit m b \<longleftrightarrow> b < 64 \<and> page_in_range offset sz (64 * i + b))"
    by auto
  have "map fst ?L = [first_word offset sz..<end_word offset sz]"
    by (simp add: comp_def)
  then have sorted: "sorted_wrt (<) (map fst ?L)" by (simp only: sorted_wrt_upt)
  have "p div 64 \<in> fst ` set ?L" if "page_in_range offset sz p" for p
  proof -
    have "p div 64 \<in> set [first_word offset sz..<end_word offset sz]"
      using in_range_word[OF that] by simp
    also have "set [first_word offset sz..<end_word offset sz] = fst ` set ?L"
      by (simp add: image_image)
    finally show ?thesis .
  qed
  then show "\<exists>L. IterateWords offset sz (\<lambda>i m acc. Some (False, acc @ [(i, m)])) [] = Some L
            \<and> (\<forall>(i, m) \<in> set L. i < unat NUM_REGION_WORDS
                 \<and> (\<forall>b. bit m b \<longleftrightarrow> b < 64 \<and> page_in_range offset sz (64 * i + b)))
            \<and> sorted_wrt (<) (map fst L)
            \<and> (\<forall>p. page_in_range offset sz p \<longrightarrow> p div 64 \<in> fst ` set L)"
    using masks sorted unfolding visited_words by (intro exI[of _ ?L] conjI) simp_all
next
  obtain r' cs' where res: "ChangeRegionState t d addr sz (r, cs) = Some (r', cs')"
    and wf': "wf_region r'"
    using ChangeRegionState_eq[OF assms, of t d addr sz cs] assms by simp
  have "same_page r r' p" if "p < 1024" "\<not> page_in_range (addr - cpu_addr r) sz p" for p
    using ChangeRegionState_pages[OF assms that(1) res] that(2)
    by (cases t) (simp_all add: same_page_def)
  moreover have "page_bit (Span t r') p = d" if "page_in_range (addr - cpu_addr r) sz p" for p
  proof -
    have "p < 1024" using that by (simp add: page_in_range_def)
    from ChangeRegionState_pages(1,2)[OF assms this res] that show ?thesis
      by (cases t) (simp_all add: Span_def cpu_modified_def gpu_modified_def)
  qed
  ultimately show "\<exists>r' cs'. ChangeRegionState t d addr sz (r, cs) = Some (r', cs') \<and> wf_region r'
            \<and> (\<forall>p. p < 1024 \<and> \<not> page_in_range (addr - cpu_addr r) sz p \<longrightarrow> same_page r r' p)
            \<and> (\<forall>p. page_in_range (addr - cpu_addr r) sz p \<longrightarrow> page_bit (Span t r') p = d)"
    using res wf' by blast
next
  let ?o = "addr - cpu_addr r"
  from ForEachModifiedRange_runs[OF assms, of t clear addr sz cs]
  obtain r' cs' runs where res: "ForEachModifiedRange t clear addr sz (r, cs) = Some (r', cs')"
    and cb: "callbacks cs' = callbacks cs @ map (to_callback (cpu_addr r)) runs"
    and mr: "maximal_runs (modified_in_range t r ?o sz) runs"
    by blast
  have wf': "wf_region r'"
    using res ForEachModifiedRange_eq[OF assms, of t clear addr sz cs] assms by auto
  have "modified_in_range t r ?o sz = (\<lambda>p. page_in_range ?o sz p \<and> page_bit (Span t r) p)"
    by (intro ext) (simp add: modified_in_range_def)
  then have mr': "maximal_runs (\<lambda>p. page_in_range ?o sz p \<and> page_bit (Span t r) p) runs"
    using mr by simp
  have frame: "same_page r r' p" if "p < 1024" "\<not> page_in_range ?o sz p" for p
    using ForEachModifiedRange_pages[OF assms that(1) res] that(2)
    by (simp add: same_page_def)
  have bits: "page_bit (Span t r') p = (page_bit (Span t r) p \<and> \<not> (clear \<and> page_in_range ?o sz p))"
    if "p < 1024" for p
    using ForEachModifiedRange_pages(1,2)[OF assms that res]
    by (cases t) (simp_all add: Span_def cpu_modified_def gpu_modified_def)
  show "\<exists>r' cs' runs. ForEachModifiedRange t clear addr sz (r, cs) = Some (r', cs') \<and> wf_region r'
            \<and> (\<forall>p. p < 1024 \<and> \<not> page_in_range (addr - cpu_addr r) sz p \<longrightarrow> same_page r r' p)
            \<and> callbacks cs' = callbacks cs @ map (to_callback (cpu_addr r)) runs
            \<and> maximal_runs (\<lambda>p. page_in_range (addr - cpu_addr r) sz p \<and> page_bit (Span t r) p) runs
            \<and> (\<forall>p. p < 1024 \<longrightarrow> page_bit (Span t r') p
                  = (page_bit (Span t r) p \<and> \<not> (clear \<and> page_in_range (addr - cpu_addr r) sz p)))"
    using res wf' frame cb mr' bits by (intro exI[of _ r'] exI[of _ cs'] exI[of _ runs]) simp
next
  show "IsRegionModified t r offset sz
         = Some (\<exists>p. page_in_range offset sz p \<and> page_bit (Span t r) p)"
    by (simp add: IsRegionModified_eq[OF assms] modified_in_range_def)
next
  show "sz = 0 \<longrightarrow> ChangeRegionState t d addr sz (r, cs) = Some (r, cs)
                  \<and> ForEachModifiedRange t clear addr sz (r, cs) = Some (r, cs)
                  \<and> IsRegionModified t r offset sz = Some False"
    by (simp add: ChangeRegionState_empty ForEachModifiedRange_empty IsRegionModified_empty)
qed

text \<open>A range of three pages that starts at the last page of the region: only word 15 is
  visited, with the bit of page 1023 alone in its mask. On the freshly constructed region
  \<open>ForEachModifiedRange<CPU, true>\<close> reports the one page \<open>(0x103FF000, 0x1000)\<close> and
  \<open>IsRegionModified<CPU>\<close> answers true.\<close>

lemma clipped_example:
  "IterateWords 0x3FF000 0x3000 (\<lambda>i m acc. Some (False, acc @ [(i, m)])) []
     = Some [(15, 0x8000000000000000)]"
  by code_simp

lemma clipped_example_report:
  "ForEachModifiedRange CPU True 0x103FF000 0x3000 (RegionManager_new 0x10000000, [])
     = Some (\<lparr>cpu_addr = 0x10000000,
              cpu = replicate 15 (NOT 0) @ [0x7FFFFFFFFFFFFFFF],
              gpu = replicate 16 0,
              write_bits = replicate 15 (NOT 0) @ [0x7FFFFFFFFFFFFFFF],
              read_bits = replicate 16 (NOT 0)\<rparr>,
             [UpdatePageWatchers 1 False 0x103FF000 0x1000, Callback 0x103FF000 0x1000])"
  by code_simp

lemma clipped_example_change:
  "ChangeRegionState CPU False 0x103FF000 0x3000 (RegionManager_new 0x10000000, [])
     = Some (\<lparr>cpu_addr = 0x10000000,
              cpu = replicate 15 (NOT 0) @ [0x7FFFFFFFFFFFFFFF],
              gpu = replicate 16 0,
              write_bits = replicate 15 (NOT 0) @ [0x7FFFFFFFFFFFFFFF],
              read_bits = replicate 16 (NOT 0)\<rparr>,
             [UpdatePageWatchers 1 False 0x103FF000 0x1000])"
  by code_simp

lemma clipped_example_query:
  "IsRegionModified CPU (RegionManager_new 0x10000000) 0x3FF000 0x3000 = Some True"
  "IsRegionModified GPU (RegionManager_new 0x10000000) 0x3FF000 0x3000 = Some False"
  by code_simp+

theorem queries_are_clipped_witness:
  "wf_region (RegionManager_new 0x10000000)
   \<and> (\<exists>L. IterateWords 0x3FF000 0x3000 (\<lambda>i m acc. Some (False, acc @ [(i, m)])) [] = Some L
            \<and> (\<forall>(i, m) \<in> set L. i < unat NUM_REGION_WORDS
                 \<and> (\<forall>b. bit m b \<longleftrightarrow> b < 64 \<and> page_in_range 0x3FF000 0x3000 (64 * i + b)))
            \<and> sorted_wrt (<) (map fst L)
            \<and> (\<forall>p. page_in_range 0x3FF000 0x3000 p \<longrightarrow> p div 64 \<in> fst ` set L))
   \<and> (\<exists>r' cs'. ChangeRegionState CPU False 0x103FF000 0x3000 (RegionManager_new 0x10000000, [])
              = Some (r', cs') \<and> wf_region r'
            \<and> (\<forall>p. p < 1024 \<and> \<not> page_in_range (0x103FF000 - cpu_addr (RegionManager_new 0x10000000)) 0x3000 p
                  \<longrightarrow> same_page (RegionManager_new 0x10000000) r' p)
            \<and> (\<forall>p. page_in_range (0x103FF000 - cpu_addr (RegionManager_new 0x10000000)) 0x3000 p
                  \<longrightarrow> page_bit (Span CPU r') p = False))
   \<and> (\<exists>r' cs' runs. ForEachModifiedRange CPU True 0x103FF000 0x3000 (RegionManager_new 0x10000000, [])
              = Some (r', cs') \<and> wf_region r'
            \<and> (\<forall>p. p < 1024 \<and> \<not> page_in_range (0x103FF000 - cpu_addr (RegionManager_new 0x10000000)) 0x3000 p
                  \<longrightarrow> same_page (RegionManager_new 0x10000000) r' p)
            \<and> callbacks cs' = callbacks [] @ map (to_callback (cpu_addr (RegionManager_new 0x10000000))) runs
            \<and> maximal_runs (\<lambda>p. page_in_range (0x103FF000 - cpu_addr (RegionManager_new 0x10000000)) 0x3000 p
                  \<and> page_bit (Span CPU (RegionManager_new 0x10000000)) p) runs
            \<and> (\<forall>p. p < 1024 \<longrightarrow> page_bit (Span CPU r') p
                  = (page_bit (Span CPU (RegionManager_new 0x10000000)) p
                     \<and> \<not> (True \<and> page_in_range (0x103FF000 - cpu_addr (RegionManager_new 0x10000000)) 0x3000 p))))
   \<and> IsRegionModified CPU (RegionManager_new 0x10000000) 0x3FF000 0x3000
       = Some (\<exists>p. page_in_range 0x3FF000 0x3000 p \<and> page_bit (Span CPU (RegionManager_new 0x10000000)) p)
   \<and> IterateWords 0x3FF000 0x3000 (\<lambda>i m acc. Some (False, acc @ [(i, m)])) []
       = Some [(15, 0x8000000000000000)]
   \<and> map_option (\<lambda>rc. callbacks (snd rc))
       (ForEachModifiedRange CPU True 0x103FF000 0x3000 (RegionManager_new 0x10000000, []))
       = Some [(0x103FF000, 0x1000)]
   \<and> map_option snd
       (ChangeRegionState CPU False 0x103FF000 0x3000 (RegionManager_new 0x10000000, []))
       = Some [UpdatePageWatchers 1 False 0x103FF000 0x1000]
   \<and> IsRegionModified CPU (RegionManager_new 0x10000000) 0x3FF000 0x3000 = Some True
   \<and> IsRegionModified GPU (RegionManager_new 0x10000000) 0x3FF000 0x3000 = Some False
   \<and> ChangeRegionState CPU False 0x103FF000 0 (RegionManager_new 0x10000000, [])
       = Some (RegionManager_new 0x10000000, [])
   \<and> ForEachModifiedRange CPU True 0x103FF000 0 (RegionManager_new 0x10000000, [])
       = Some (RegionManager_new 0x10000000, [])
   \<and> IsRegionModified CPU (RegionManager_new 0x10000000) 0x3FF000 0 = Some False"
proof -
  note wf = wf_new[of "0x10000000"]
  note A = queries_are_clipped[OF wf, where offset = "0x3FF000" and sz = "0x3000" and t = CPU
      and d = False and clear = True and addr = "0x103FF000" and cs = "[]"]
  note B = queries_are_clipped[OF wf, where offset = "0x3FF000" and sz = 0 and t = CPU
      and d = False and clear = True and addr = "0x103FF000" and cs = "[]"]
  from B have zero: "ChangeRegionState CPU False 0x103FF000 0 (RegionManager_new 0x10000000, [])
       = Some (RegionManager_new 0x10000000, [])
     \<and> ForEachModifiedRange CPU True 0x103FF000 0 (RegionManager_new 0x10000000, [])
       = Some (RegionManager_new 0x10000000, [])
     \<and> IsRegionModified CPU (RegionManager_new 0x10000000) 0x3FF000 0 = Some False"
    by blast
  have report: "map_option (\<lambda>rc. callbacks (snd rc))
       (ForEachModifiedRange CPU True 0x103FF000 0x3000 (RegionManager_new 0x10000000, []))
       = Some [(0x103FF000, 0x1000)]"
    unfolding clipped_example_report by simp
  have change: "map_option snd
       (ChangeRegionState CPU False 0x103FF000 0x3000 (RegionManager_new 0x10000000, []))
       = Some [UpdatePageWatchers 1 False 0x103FF000 0x1000]"
    unfolding clipped_example_change by simp
  show ?thesis
    apply (intro conjI)
    using wf apply assumption
    using A apply blast
    using A apply blast
    using A apply blast
    using A apply blast
    using clipped_example apply assumption
    using report apply assumption
    using change apply assumption
    using clipped_example_query(1) apply assumption
    using clipped_example_query(2) apply assumption
    using zero apply blast
    using zero apply blast
    using zero apply blast
    done
qed



section \<open>Clearing while reporting\<close>

text \<open>Every call to the tracker starts at or after the end of every range that was handed
  to the callback before it: once a run has been reported, the tracker hears nothing more
  about its pages. Positions are byte offsets from the base address of the region.\<close>

fun settled :: "VAddr \<Rightarrow> nat \<Rightarrow> call list \<Rightarrow> bool" where
  "settled base m [] = True"
| "settled base m (Callback a n # cs) = settled base (max m (unat (a - base) + unat n)) cs"
| "settled base m (UpdatePageWatchers delta is_read a n # cs)
     = (m \<le> unat (a - base) \<and> settled base m cs)"

fun reported_end :: "VAddr \<Rightarrow> call list \<Rightarrow> nat" where
  "reported_end base [] = 0"
| "reported_end base (Callback a n # cs) = max (unat (a - base) + unat n) (reported_end base cs)"
| "reported_end base (UpdatePageWatchers delta is_read a n # cs) = reported_end base cs"

lemma reported_end_append:
  "reported_end base (xs @ ys) = max (reported_end base xs) (reported_end base ys)"
  by (induction xs rule: reported_end.induct) (simp_all add: max.assoc)

lemma settled_append:
  "settled base m (xs @ ys)
     \<longleftrightarrow> settled base m xs \<and> settled base (max m (reported_end base xs)) ys"
  by (induction base m xs rule: settled.induct) (simp_all add: max.assoc)

lemma settled_mono: "settled base m cs \<Longrightarrow> m' \<le> m \<Longrightarrow> settled base m' cs"
proof (induction base m cs arbitrary: m' rule: settled.induct)
  case (2 base m a n cs)
  then show ?case by (auto intro: "2.IH"[of "max m' (unat (a - base) + unat n)"] simp: max.coboundedI1)
qed auto

definition in_order :: "VAddr \<Rightarrow> call list \<Rightarrow> nat \<Rightarrow> range_state \<Rightarrow> bool" where
  "in_order base cs K st \<longleftrightarrow>
     K \<le> 1024 \<and> (pending st \<longrightarrow> pending_offset st \<le> pending_pointer st \<and> pending_pointer st \<le> K)
     \<and> (\<exists>new. calls st = cs @ new \<and> settled base 0 new \<and> reported_end base new \<le> K * 4096)"

lemma unat_page_offset:
  assumes "n \<le> 1024"
  shows "unat (of_nat n * BYTES_PER_PAGE :: u64) = n * 4096"
proof -
  have "unat (of_nat (n * 4096) :: u64) = (n * 4096) mod 2 ^ LENGTH(64)" by (rule unat_of_nat)
  also have "\<dots> = n * 4096" using assms by simp
  finally show ?thesis by (simp add: consts_simps)
qed

lemma in_order_release:
  assumes "in_order base cs K st" "pending st"
  shows "\<exists>new. calls (release base st) = cs @ new \<and> settled base 0 new
           \<and> reported_end base new \<le> K * 4096"
proof -
  from assms obtain new where K: "K \<le> 1024"
    and pp: "pending_offset st \<le> pending_pointer st" "pending_pointer st \<le> K"
    and new: "calls st = cs @ new" "settled base 0 new" "reported_end base new \<le> K * 4096"
    unfolding in_order_def by blast
  let ?a = "base + of_nat (pending_offset st) * BYTES_PER_PAGE"
  let ?n = "(of_nat (pending_pointer st) - of_nat (pending_offset st)) * BYTES_PER_PAGE :: u64"
  have "?a - base = of_nat (pending_offset st) * BYTES_PER_PAGE" by simp
  then have a: "unat (?a - base) = pending_offset st * 4096"
    using unat_page_offset[of "pending_offset st"] pp K by simp
  have "?n = of_nat (pending_pointer st - pending_offset st) * BYTES_PER_PAGE"
    using pp(1) by simp
  then have n: "unat ?n = (pending_pointer st - pending_offset st) * 4096"
    using unat_page_offset[of "pending_pointer st - pending_offset st"] pp K by simp
  have "unat (?a - base) + unat ?n = pending_pointer st * 4096"
    unfolding a n using pp(1) by (simp add: diff_mult_distrib [symmetric] add_mult_distrib [symmetric])
  then have "unat (?a - base) + unat ?n \<le> K * 4096" using pp(2) by simp
  then have "settled base 0 (new @ [Callback ?a ?n])
      \<and> reported_end base (new @ [Callback ?a ?n]) \<le> K * 4096"
    using new(2,3) by (simp add: settled_append reported_end_append)
  then show ?thesis
    using new(1) by (intro exI[of _ "new @ [Callback ?a ?n]"]) (simp add: release_def)
qed

lemma in_order_on_pages:
  assumes "in_order base cs K st" "bo + s + n \<le> K"
  shows "in_order base cs K (on_pages base bo s n st)"
proof (cases "pending st")
  case False
  then show ?thesis
    using assms unfolding in_order_def by (simp add: on_pages_def reset_def)
next
  case True
  show ?thesis
  proof (cases "pending_pointer st = bo + s")
    case same: True
    then show ?thesis
      using assms True unfolding in_order_def by (simp add: on_pages_def)
  next
    case False
    from in_order_release[OF assms(1) True] obtain new where
      "calls (release base st) = cs @ new" "settled base 0 new" "reported_end base new \<le> K * 4096"
      by blast
    moreover have "K \<le> 1024" using assms(1) by (simp add: in_order_def)
    ultimately show ?thesis
      using assms(2) True False unfolding in_order_def
      by (simp add: on_pages_def reset_def release_def)
  qed
qed

lemma in_order_mono: "in_order base cs K st \<Longrightarrow> K \<le> K' \<Longrightarrow> K' \<le> 1024 \<Longrightarrow> in_order base cs K' st"
  unfolding in_order_def by (meson le_trans mult_le_mono1)


lemma page_runs_bounded: "(s, n) \<in> set (page_runs w) \<Longrightarrow> s + n \<le> 64"
  using runs_of_within[OF page_runs_runs[of w]] unfolding runs_within_def by auto

lemma settled_watcher_calls:
  assumes "i < 16" "m \<le> 64 * i * 4096"
  shows "(\<forall>(s, n) \<in> set runs. s + n \<le> 64) \<Longrightarrow>
     settled base m (watcher_calls delta is_read base i runs)
     \<and> reported_end base (watcher_calls delta is_read base i runs) = 0"
proof (induction runs)
  case Nil
  show ?case by (simp add: watcher_calls_def)
next
  case (Cons x runs)
  obtain s n where x: "x = (s, n)" by (cases x)
  have s: "s \<le> 64" using Cons.prems x by simp
  have "64 * i + s \<le> 1024" using assms(1) s by simp
  then have u: "unat (of_nat (64 * i + s) * BYTES_PER_PAGE :: u64) = (64 * i + s) * 4096"
    by (rule unat_page_offset)
  have "base + of_nat i * BYTES_PER_WORD + of_nat s * BYTES_PER_PAGE - base
      = (of_nat (64 * i + s) * BYTES_PER_PAGE :: u64)"
    by (simp add: consts_simps)
  then have "unat (base + of_nat i * BYTES_PER_WORD + of_nat s * BYTES_PER_PAGE - base)
      = (64 * i + s) * 4096"
    using u by simp
  then have le: "m \<le> unat (base + of_nat i * BYTES_PER_WORD + of_nat s * BYTES_PER_PAGE - base)"
    using assms(2) by simp
  have rest: "settled base m (watcher_calls delta is_read base i runs)
    \<and> reported_end base (watcher_calls delta is_read base i runs) = 0"
    using Cons.IH Cons.prems by simp
  have "watcher_calls delta is_read base i (x # runs)
      = UpdatePageWatchers delta is_read
            (base + of_nat i * BYTES_PER_WORD + of_nat s * BYTES_PER_PAGE)
            (of_nat n * BYTES_PER_PAGE) # watcher_calls delta is_read base i runs"
    unfolding x watcher_calls_def by simp
  then show ?case using le rest by simp
qed

lemma in_order_fe_calls:
  assumes "i < 16" "in_order base cs (64 * i) st"
  shows "in_order base cs (64 * i) (st\<lparr>calls := fe_calls t clear base i m w rd (calls st)\<rparr>)"
proof -
  from assms(2) obtain new where K: "64 * i \<le> 1024"
    and pp: "pending st \<longrightarrow> pending_offset st \<le> pending_pointer st \<and> pending_pointer st \<le> 64 * i"
    and new: "calls st = cs @ new" "settled base 0 new" "reported_end base new \<le> 64 * i * 4096"
    unfolding in_order_def by blast
  define delta :: int where "delta = (case t of CPU \<Rightarrow> 1 | GPU \<Rightarrow> - 1)"
  define is_read where "is_read = (t = GPU)"
  define runs where "runs = page_runs ((case t of CPU \<Rightarrow> w | GPU \<Rightarrow> NOT rd) AND m)"
  have b: "\<forall>(s, n) \<in> set runs. s + n \<le> 64"
    unfolding runs_def by (auto dest: page_runs_bounded)
  have eq: "fe_calls t clear base i m w rd (calls st)
          = calls st @ (if clear then watcher_calls delta is_read base i runs else [])"
    unfolding delta_def is_read_def runs_def
    by (cases t; cases clear) (simp_all add: fe_calls_def UpdateProtection_eq)
  let ?add = "if clear then watcher_calls delta is_read base i runs else []"
  have "settled base (reported_end base new) ?add" "reported_end base ?add = 0"
    using settled_watcher_calls[OF assms(1) new(3) b, where delta = delta and is_read = is_read
        and base = base]
    by simp_all
  then have "settled base 0 (new @ ?add)" "reported_end base (new @ ?add) \<le> 64 * i * 4096"
    using new(2,3) by (simp_all add: settled_append reported_end_append)
  then show ?thesis
    unfolding in_order_def using K pp new(1) eq by (intro conjI exI[of _ "new @ ?add"]) simp_all
qed

lemma in_order_fe_step:
  assumes "i < 16" "in_order base cs (64 * i) st"
  shows "in_order base cs (64 * Suc i) (fe_step t clear base i m c g w rd st)"
proof -
  let ?st = "st\<lparr>calls := fe_calls t clear base i m w rd (calls st)\<rparr>"
  let ?w = "(case t of CPU \<Rightarrow> c | GPU \<Rightarrow> g) AND m"
  have K: "64 * Suc i \<le> 1024" using assms(1) by simp
  have "in_order base cs (64 * Suc i) ?st"
    by (rule in_order_mono[OF in_order_fe_calls[OF assms] _ K]) simp
  then have "in_order base cs (64 * Suc i)
      (fold (\<lambda>(s, n). on_pages base (i * 64) s n) (page_runs ?w) ?st)"
  proof (rule fold_invariant[where Q = "\<lambda>(s, n). s + n \<le> 64", rotated])
    fix x :: "nat \<times> nat" and st'
    assume "case x of (s, n) \<Rightarrow> s + n \<le> 64" "in_order base cs (64 * Suc i) st'"
    then show "in_order base cs (64 * Suc i) ((case x of (s, n) \<Rightarrow> on_pages base (i * 64) s n) st')"
      by (cases x) (auto intro: in_order_on_pages)
  next
    fix x :: "nat \<times> nat" assume "x \<in> set (page_runs ?w)"
    then show "case x of (s, n) \<Rightarrow> s + n \<le> 64"
      using page_runs_bounded[of "fst x" "snd x" ?w] by (simp add: case_prod_beta)
  qed
  then show ?thesis by (simp add: fe_step_def IteratePages_fold)
qed

text \<open>The calls made by \<open>ForEachModifiedRange\<close> are appended to the trace in this order.\<close>

lemma ForEachModifiedRange_in_order:
  assumes "wf_region r" "ForEachModifiedRange t clear addr sz (r, cs) = Some (r', cs')"
  shows "\<exists>new. cs' = cs @ new \<and> settled (cpu_addr r) 0 new"
proof -
  let ?o = "addr - cpu_addr r"
  let ?f = "\<lambda>i. fe_step t clear (cpu_addr r) i (word_mask ?o sz i)
                        (cpu r ! i) (gpu r ! i) (write_bits r ! i) (read_bits r ! i)"
  define fin where "fin = fold ?f [first_word ?o sz..<end_word ?o sz] (fe_init cs)"
  have e16: "end_word ?o sz \<le> 16" using end_word_le[of ?o sz] by (simp add: consts_simps)
  have init: "in_order (cpu_addr r) cs (64 * first_word ?o sz) (fe_init cs)"
    using first_word_le_end_word[of ?o sz] e16 unfolding in_order_def by (simp add: fe_init_def)
  have "in_order (cpu_addr r) cs (64 * end_word ?o sz) fin"
    unfolding fin_def
  proof (rule fold_upt_invariant[where I = "\<lambda>i. in_order (cpu_addr r) cs (64 * i)", OF init
          first_word_le_end_word])
    fix i s assume "i < end_word ?o sz" and s: "in_order (cpu_addr r) cs (64 * i) s"
    then have "i < 16" using e16 by simp
    then show "in_order (cpu_addr r) cs (64 * Suc i) (?f i s)"
      using s by (rule in_order_fe_step)
  qed
  then have fin: "\<exists>new. fe_final (cpu_addr r) fin = cs @ new \<and> settled (cpu_addr r) 0 new"
    using in_order_release[of "cpu_addr r" cs "64 * end_word ?o sz" fin]
    unfolding fe_final_def by (cases "pending fin") (auto simp: in_order_def)
  have "cs' = fe_final (cpu_addr r) fin"
    using assms(2) unfolding ForEachModifiedRange_eq[OF assms(1)] fin_def by simp
  then show ?thesis using fin by simp
qed


definition cleared_fresh_region :: RegionManager where
  "cleared_fresh_region =
     fst (the (ForEachModifiedRange CPU True 0x10000000 0x1000 (RegionManager_new 0x10000000, [])))"

text \<open>Claim C5, as amended. On every region, for both sides and every range,
  \<open>ForEachModifiedRange\<close> with \<open>clear\<close> set returns, and afterwards no page of the range is
  marked modified on that side, so that \<open>IsRegionModified\<close> over the same range answers
  false. On the CPU side every page of the range is then write-tracked (write-protected);
  on the GPU side no page of the range is read-tracked any more. The calls of the operation
  are appended to the trace, and every call to the tracker comes before every callback that
  reports pages at or after its address: when a range is handed to the callback, the
  protection of its pages has already been updated.\<close>

theorem clear_resolves_modified_range:
  assumes "wf_region r"
  shows "\<exists>r' new. ForEachModifiedRange t True addr sz (r, cs) = Some (r', cs @ new)
     \<and> (\<forall>p. page_in_range (addr - cpu_addr r) sz p \<longrightarrow>
           \<not> page_bit (Span t r') p
           \<and> (case t of CPU \<Rightarrow> write_tracked r' p | GPU \<Rightarrow> \<not> read_tracked r' p))
     \<and> IsRegionModified t r' (addr - cpu_addr r) sz = Some False
     \<and> settled (cpu_addr r) 0 new"
proof -
  let ?o = "addr - cpu_addr r"
  obtain r' cs' where res: "ForEachModifiedRange t True addr sz (r, cs) = Some (r', cs')"
    and wf': "wf_region r'"
    using ForEachModifiedRange_eq[OF assms, of t True addr sz cs] assms by simp
  obtain new where new: "cs' = cs @ new" "settled (cpu_addr r) 0 new"
    using ForEachModifiedRange_in_order[OF assms res] by blast
  have pages: "\<not> page_bit (Span t r') p
      \<and> (case t of CPU \<Rightarrow> write_tracked r' p | GPU \<Rightarrow> \<not> read_tracked r' p)"
    if "page_in_range ?o sz p" for p
  proof -
    have "p < 1024" using that by (simp add: page_in_range_def)
    from ForEachModifiedRange_pages[OF assms this res] that show ?thesis
      by (cases t) (simp_all add: Span_def cpu_modified_def gpu_modified_def)
  qed
  then have "\<not> (\<exists>p. modified_in_range t r' ?o sz p)"
    by (simp add: modified_in_range_def)
  then have "IsRegionModified t r' ?o sz = Some False"
    using IsRegionModified_eq[OF wf', of t ?o sz] by simp
  then show ?thesis using res new pages by blast
qed

lemma cleared_fresh_region_eq:
  "ForEachModifiedRange CPU True 0x10000000 0x1000 (RegionManager_new 0x10000000, [])
     = Some (\<lparr>cpu_addr = 0x10000000,
              cpu = NOT 1 # replicate 15 (NOT 0),
              gpu = replicate 16 0,
              write_bits = NOT 1 # replicate 15 (NOT 0),
              read_bits = replicate 16 (NOT 0)\<rparr>,
             [UpdatePageWatchers 1 False 0x10000000 0x1000, Callback 0x10000000 0x1000])"
  by code_simp

lemma first_page_queried: "page_in_range 0 0x1000 0"
  by code_simp

theorem clear_resolves_modified_range_witness:
  "wf_region (RegionManager_new 0x10000000)
   \<and> page_in_range (0x10000000 - cpu_addr (RegionManager_new 0x10000000)) 0x1000 0
   \<and> (\<exists>r'. ForEachModifiedRange CPU True 0x10000000 0x1000 (RegionManager_new 0x10000000, [])
          = Some (r', [UpdatePageWatchers 1 False 0x10000000 0x1000, Callback 0x10000000 0x1000])
        \<and> \<not> page_bit (Span CPU r') 0 \<and> write_tracked r' 0
        \<and> IsRegionModified CPU r' (0x10000000 - cpu_addr (RegionManager_new 0x10000000)) 0x1000
            = Some False
        \<and> settled (cpu_addr (RegionManager_new 0x10000000)) 0
            [UpdatePageWatchers 1 False 0x10000000 0x1000, Callback 0x10000000 0x1000])"
proof -
  have base: "cpu_addr (RegionManager_new 0x10000000) = 0x10000000"
    by (simp add: RegionManager_new_def)
  have q: "page_in_range (0x10000000 - cpu_addr (RegionManager_new 0x10000000)) 0x1000 0"
    unfolding base using first_page_queried by simp
  from clear_resolves_modified_range[OF wf_new, where base1 = "0x10000000" and t = CPU
      and addr = "0x10000000" and sz = "0x1000" and cs = "[]"]
  obtain r' new where
    r: "ForEachModifiedRange CPU True 0x10000000 0x1000 (RegionManager_new 0x10000000, [])
          = Some (r', [] @ new)"
    and p: "\<forall>p. page_in_range (0x10000000 - cpu_addr (RegionManager_new 0x10000000)) 0x1000 p \<longrightarrow>
           \<not> page_bit (Span CPU r') p
           \<and> (case CPU of CPU \<Rightarrow> write_tracked r' p | GPU \<Rightarrow> \<not> read_tracked r' p)"
    and m: "IsRegionModified CPU r' (0x10000000 - cpu_addr (RegionManager_new 0x10000000)) 0x1000
            = Some False"
    and s: "settled (cpu_addr (RegionManager_new 0x10000000)) 0 new"
    by blast
  have new: "new = [UpdatePageWatchers 1 False 0x10000000 0x1000, Callback 0x10000000 0x1000]"
    using r unfolding cleared_fresh_region_eq by simp
  have "\<not> page_bit (Span CPU r') 0 \<and> write_tracked r' 0" using p q by simp
  then show ?thesis using wf_new q r m s unfolding new by simp
qed

text \<open>Claim C5 as stated fails for the CPU side: clearing does not un-write-protect the
  pages, it write-protects them. On the freshly constructed region the first page is
  CPU-modified and not write-tracked; \<open>ForEachModifiedRange<CPU, true>\<close> over that page
  asks the tracker to start tracking it (delta \<open>1\<close>, before the callback) and clears its bit in
  \<open>write\<close>, the set of unprotected pages.\<close>

theorem clear_write_protects_cpu_pages:
  "map_option snd
       (ForEachModifiedRange CPU True 0x10000000 0x1000 (RegionManager_new 0x10000000, []))
     = Some [UpdatePageWatchers 1 False 0x10000000 0x1000, Callback 0x10000000 0x1000]
   \<and> page_in_range 0 0x1000 0
   \<and> cpu_modified (RegionManager_new 0x10000000) 0
   \<and> \<not> write_tracked (RegionManager_new 0x10000000) 0
   \<and> \<not> cpu_modified cleared_fresh_region 0
   \<and> write_tracked cleared_fresh_region 0"
  unfolding cleared_fresh_region_def cleared_fresh_region_eq
  using first_page_queried
  by (simp add: cpu_modified_def write_tracked_def page_bit_def RegionManager_new_def consts_simps)


section \<open>The streaming copy of stream\_memcpy.cpp\<close>

text \<open>Memory is a map from addresses to bytes; a \<open>__m128i\<close> is the list of its 16 bytes.\<close>

type_synonym memory = "u64 \<Rightarrow> 8 word"

text \<open>\<open>memcpy\<close> of the C library, for buffers that do not overlap: \<open>n\<close> bytes are copied one
  by one, in ascending order. This is also the ordinary byte-by-byte copy that the streaming
  copy is compared with.\<close>

fun byte_copy :: "u64 \<Rightarrow> u64 \<Rightarrow> nat \<Rightarrow> memory \<Rightarrow> memory" where
  "byte_copy d s 0 mem = mem"
| "byte_copy d s (Suc n) mem = byte_copy (d + 1) (s + 1) n (mem(d := mem s))"

definition memcpy :: "u64 \<Rightarrow> u64 \<Rightarrow> u64 \<Rightarrow> memory \<Rightarrow> memory" where
  "memcpy d s n mem = byte_copy d s (unat n) mem"

text \<open>\<open>std::has_single_bit\<close>, the macro \<open>ALIGN_POT\<close> and \<open>align_uintptr\<close>, whose \<open>ASSERT\<close>
  fails on an alignment that is not a power of two.\<close>

definition has_single_bit :: "u64 \<Rightarrow> bool" where
  "has_single_bit x \<longleftrightarrow> x \<noteq> 0 \<and> x AND (x - 1) = 0"

definition ALIGN_POT :: "u64 \<Rightarrow> u64 \<Rightarrow> u64" where
  "ALIGN_POT x pot_align = (x + pot_align - 1) AND NOT (pot_align - 1)"

definition align_uintptr :: "u64 \<Rightarrow> u64 \<Rightarrow> u64 option" where
  "align_uintptr v alignment = (if has_single_bit alignment then Some (ALIGN_POT v alignment) else None)"

text \<open>\<open>_mm_stream_load_si128\<close> and \<open>_mm_store_si128\<close> move 16 bytes at an address that is a
  multiple of 16; at any other address they fault.\<close>

definition mm_stream_load_si128 :: "memory \<Rightarrow> u64 \<Rightarrow> 8 word list option" where
  "mm_stream_load_si128 mem a =
     (if a AND 15 \<noteq> 0 then None else Some (map (\<lambda>i. mem (a + of_nat i)) [0..<16]))"

definition mm_store_si128 :: "memory \<Rightarrow> u64 \<Rightarrow> 8 word list \<Rightarrow> memory option" where
  "mm_store_si128 mem a v =
     (if a AND 15 \<noteq> 0 then None
      else Some (\<lambda>x. if x - a < 16 then v ! unat (x - a) else mem x))"

text \<open>The \<open>while (len >= 16)\<close> loop. (\<open>_mm_mfence\<close> before it orders memory accesses and
  changes no byte.)\<close>

function stream_loop :: "u64 \<Rightarrow> u64 \<Rightarrow> u64 \<Rightarrow> memory \<Rightarrow> (u64 \<times> u64 \<times> u64 \<times> memory) option" where
  "stream_loop d s len mem =
     (if 16 \<le> len then do {
        temp1 \<leftarrow> mm_stream_load_si128 mem s;
        mem' \<leftarrow> mm_store_si128 mem d temp1;
        stream_loop (d + 16) (s + 16) (len - 16) mem'
      } else Some (d, s, len, mem))"
  by pat_completeness auto
termination
proof (relation "measure (\<lambda>(d, s, len, mem). unat len)")
  show "wf (measure (\<lambda>(d, s, len, mem). unat len))" by simp
next
  fix d s len :: u64 and mem x2 :: memory and x :: "8 word list"
  assume "16 \<le> len"
  then have "unat (len - 16) = unat len - 16" "16 \<le> unat len"
    by (simp_all add: unat_sub word_le_nat_alt)
  then show "((d + 16, s + 16, len - 16, x2), d, s, len, mem) \<in> measure (\<lambda>(d, s, len, mem). unat len)"
    by simp
qed

declare stream_loop.simps [simp del]

text \<open>\<open>util_streaming_load_memcpy(dst, src, len)\<close>; \<open>None\<close> is a failed \<open>ASSERT\<close> or a
  fault of a 16-byte load or store.\<close>

definition util_streaming_load_memcpy :: "u64 \<Rightarrow> u64 \<Rightarrow> u64 \<Rightarrow> memory \<Rightarrow> memory option" where
  "util_streaming_load_memcpy dst src len0 mem0 =
     (if dst AND 15 \<noteq> src AND 15 then Some (memcpy dst src len0 mem0)
      else do {
        (d, s, len, mem) \<leftarrow>
          (if dst AND 15 \<noteq> 0 then
             (let bytes_before_alignment_boundary = 16 - (dst AND 15) in
              if \<not> bytes_before_alignment_boundary < 16 then None
              else do {
                let mem = memcpy dst src (min bytes_before_alignment_boundary len0) mem0;
                d \<leftarrow> align_uintptr dst 16;
                s \<leftarrow> align_uintptr src 16;
                Some (d, s, len0 - min bytes_before_alignment_boundary len0, mem)
              })
           else Some (dst, src, len0, mem0));
        (d, s, len, mem) \<leftarrow> stream_loop d s len mem;
        Some (if len \<noteq> 0 then memcpy d s len mem else mem)
      })"

text \<open>The two buffers lie inside the address space and do not overlap.\<close>

definition separate :: "u64 \<Rightarrow> u64 \<Rightarrow> u64 \<Rightarrow> bool" where
  "separate d s len \<longleftrightarrow>
     (unat d + unat len \<le> unat s \<and> unat s + unat len \<le> 2 ^ 64)
     \<or> (unat s + unat len \<le> unat d \<and> unat d + unat len \<le> 2 ^ 64)"


subsection \<open>The copy as a relation between memories\<close>

text \<open>No address lies in both buffers of \<open>n\<close> bytes, and \<open>mem'\<close> is \<open>mem\<close> with the \<open>n\<close>
  bytes at \<open>s\<close> copied to \<open>d\<close>. Both are stated with the arithmetic of addresses modulo
  \<open>2^64\<close>.\<close>

definition disjoint_buffers :: "u64 \<Rightarrow> u64 \<Rightarrow> u64 \<Rightarrow> bool" where
  "disjoint_buffers d s n \<longleftrightarrow> (\<forall>a. a - d < n \<longrightarrow> \<not> a - s < n)"

definition copies :: "u64 \<Rightarrow> u64 \<Rightarrow> u64 \<Rightarrow> memory \<Rightarrow> memory \<Rightarrow> bool" where
  "copies d s n mem mem' \<longleftrightarrow> (\<forall>a. mem' a = (if a - d < n then mem (s + (a - d)) else mem a))"

lemma unat_diff:
  "unat (a - b) = (if unat b \<le> unat a then unat a - unat b else unat a + 2 ^ 64 - unat b)"
  for a b :: u64
  by (simp add: unat_sub_if' word_le_nat_alt word_less_nat_alt)

lemma separate_disjoint:
  assumes "separate d s n"
  shows "disjoint_buffers d s n"
  unfolding disjoint_buffers_def
proof (intro allI impI notI)
  fix a assume a: "a - d < n" "a - s < n"
  have ud: "unat (a - d) < unat n" and us: "unat (a - s) < unat n"
    using a by (simp_all add: word_less_nat_alt)
  note d = unat_diff[of a d] and s = unat_diff[of a s]
  have b: "unat a < 2 ^ 64" "unat d < 2 ^ 64" "unat s < 2 ^ 64"
    using unsigned_less[of a] unsigned_less[of d] unsigned_less[of s] by simp_all
  from assms show False
    unfolding separate_def using ud us b unfolding d s by (auto split: if_splits)
qed

lemma word_slide:
  fixes x n1 n2 :: u64
  assumes "unat n1 + unat n2 < 2 ^ 64"
  shows "x - n1 < n2 \<longleftrightarrow> n1 \<le> x \<and> x < n1 + n2"
proof -
  have sum: "unat (n1 + n2) = unat n1 + unat n2"
    using assms unat_add_lem[of n1 n2] by simp
  have b: "unat x < 2 ^ 64" using unsigned_less[of x] by simp
  show ?thesis
    using assms b by (auto simp: word_less_nat_alt word_le_nat_alt sum unat_diff[of x n1])
qed


lemma word_le_add: "unat n1 + unat n2 < 2 ^ 64 \<Longrightarrow> n1 \<le> n1 + n2" for n1 n2 :: u64
  using unat_add_lem[of n1 n2] by (simp add: word_le_nat_alt)

lemma disjoint_buffers_mono:
  "disjoint_buffers d s n \<Longrightarrow> n' \<le> n \<Longrightarrow> disjoint_buffers d s n'"
  unfolding disjoint_buffers_def by (meson order_less_le_trans)

lemma disjoint_buffers_slide:
  assumes "disjoint_buffers d s (n1 + n2)" "unat n1 + unat n2 < 2 ^ 64"
  shows "disjoint_buffers (d + n1) (s + n1) n2"
  unfolding disjoint_buffers_def
proof (intro allI impI)
  fix a assume "a - (d + n1) < n2"
  then have "a - d - n1 < n2" by (simp add: diff_diff_eq)
  then have "a - d < n1 + n2" using word_slide[OF assms(2), of "a - d"] by simp
  then have "\<not> a - s < n1 + n2" using assms(1) by (simp add: disjoint_buffers_def)
  then have "\<not> a - s - n1 < n2" using word_slide[OF assms(2), of "a - s"] by simp
  then show "\<not> a - (s + n1) < n2" by (simp add: diff_diff_eq)
qed

lemma copies_append:
  assumes "copies d s n1 mem mem1" "copies (d + n1) (s + n1) n2 mem1 mem2"
    "unat n1 + unat n2 < 2 ^ 64" "disjoint_buffers d s (n1 + n2)"
  shows "copies d s (n1 + n2) mem mem2"
  unfolding copies_def
proof
  fix a
  let ?x = "a - d"
  have sl: "?x - n1 < n2 \<longleftrightarrow> n1 \<le> ?x \<and> ?x < n1 + n2" by (rule word_slide[OF assms(3)])
  have m2: "mem2 a = (if ?x - n1 < n2 then mem1 (s + ?x) else mem1 a)"
    using assms(2) unfolding copies_def by (simp add: diff_diff_eq algebra_simps)
  have m1: "mem1 b = (if b - d < n1 then mem (s + (b - d)) else mem b)" for b
    using assms(1) unfolding copies_def by simp
  show "mem2 a = (if ?x < n1 + n2 then mem (s + ?x) else mem a)"
  proof (cases "?x - n1 < n2")
    case True
    then have x: "n1 \<le> ?x" "?x < n1 + n2" using sl by simp_all
    have "s + ?x - s < n1 + n2" using x(2) by simp
    then have "\<not> s + ?x - d < n1 + n2" using assms(4) unfolding disjoint_buffers_def by blast
    then have "\<not> s + ?x - d < n1" using word_le_add[OF assms(3)] by (meson order_less_le_trans)
    then show ?thesis using True x m2 m1[of "s + ?x"] by simp
  next
    case False
    have "?x < n1 + n2 \<longleftrightarrow> ?x < n1"
      using False sl word_le_add[OF assms(3)] by (meson not_le order_less_le_trans)
    then show ?thesis using False m2 m1[of a] by simp
  qed
qed

lemma copies_nothing: "copies d s 0 mem mem"
  by (simp add: copies_def)

lemma copies_byte: "copies d s 1 mem (mem(d := mem s))"
  unfolding copies_def
proof
  fix a
  have "a - d < 1 \<longleftrightarrow> a = d" by (simp add: word_less_1)
  then show "(mem(d := mem s)) a = (if a - d < 1 then mem (s + (a - d)) else mem a)" by auto
qed

lemma byte_copy_copies:
  "k < 2 ^ 64 \<Longrightarrow> disjoint_buffers d s (of_nat k) \<Longrightarrow> copies d s (of_nat k) mem (byte_copy d s k mem)"
proof (induction k arbitrary: d s mem)
  case 0
  show ?case by (simp add: copies_nothing)
next
  case (Suc k)
  have k: "k < 2 ^ 64" using Suc.prems(1) by simp
  then have uk: "unat (of_nat k :: u64) = k" by (simp add: unat_of_nat)
  have sum: "unat (1 :: u64) + unat (of_nat k :: u64) < 2 ^ 64" using Suc.prems(1) uk by simp
  have eq: "(of_nat (Suc k) :: u64) = 1 + of_nat k" by simp
  have dis: "disjoint_buffers d s (1 + of_nat k)" using Suc.prems(2) by simp
  have "copies (d + 1) (s + 1) (of_nat k) (mem(d := mem s)) (byte_copy (d + 1) (s + 1) k (mem(d := mem s)))"
    using k disjoint_buffers_slide[OF dis sum] by (rule Suc.IH)
  from copies_append[OF copies_byte this sum dis] show ?case unfolding eq by simp
qed

lemma memcpy_copies: "disjoint_buffers d s n \<Longrightarrow> copies d s n mem (memcpy d s n mem)"
  using byte_copy_copies[of "unat n" d s mem] unsigned_less[of n] by (simp add: memcpy_def)

lemma copies_unique: "copies d s n mem m1 \<Longrightarrow> copies d s n mem m2 \<Longrightarrow> m1 = m2"
  unfolding copies_def by (intro ext) simp

lemma stream_store_copies:
  assumes "d AND 15 = 0" "s AND 15 = 0"
  shows "\<exists>mem'. (mm_stream_load_si128 mem s \<bind> mm_store_si128 mem d) = Some mem'
            \<and> copies d s 16 mem mem'"
proof -
  have "map (\<lambda>i. mem (s + of_nat i)) [0..<16] ! unat (a - d) = mem (s + (a - d))"
    if "a - d < 16" for a
  proof -
    have "unat (a - d) < 16" using that by (simp add: word_less_nat_alt)
    then show ?thesis by (simp del: upt_Suc)
  qed
  then show ?thesis
    using assms unfolding mm_stream_load_si128_def mm_store_si128_def copies_def by simp
qed

lemma low_bits: "d AND 15 = take_bit 4 d" for d :: u64
  by (simp add: take_bit_eq_mask mask_eq_exp_minus_1)

lemma low_bits_less: "d AND 15 < 16" for d :: u64
  using and_mask_less'[of 4 d] by (simp add: mask_eq_exp_minus_1)

lemma unat_low_bits: "unat (x AND 15) = unat x mod 16" for x :: u64
proof -
  have "x mod 2 ^ 4 = x AND mask 4" by (rule word_mod_2p_is_mask) simp
  then have "x AND 15 = x mod 16" by (simp add: mask_eq_exp_minus_1)
  then show ?thesis by (simp add: unat_mod)
qed

lemma unat_add_mod_16: "unat (x + y) mod 16 = (unat x + unat y) mod 16" for x y :: u64
proof -
  have "(16 :: nat) dvd 2 ^ 64" by simp
  then have "(unat x + unat y) mod 2 ^ 64 mod 16 = (unat x + unat y) mod 16"
    by (rule mod_mod_cancel)
  then show ?thesis by (simp add: unat_word_ariths)
qed

lemma low_bits_add_16: "(d + 16) AND 15 = d AND 15" for d :: u64
proof -
  have "unat ((d + 16) AND 15) = unat (d AND 15)"
    unfolding unat_low_bits unat_add_mod_16 by simp
  then show ?thesis by (rule word_unat_eq_iff[THEN iffD2])
qed

lemma and_not_eq_diff: "x AND NOT m = x - (x AND m)" for x m :: u64
proof -
  have "NOT x AND (x AND m) = 0" by (auto simp: bit_eq_iff bit_simps)
  then have "x - (x AND m) = x AND NOT (x AND m)" by (rule disjunctive_diff_eq_and_not)
  also have "\<dots> = x AND NOT m" by (auto simp: bit_eq_iff bit_simps)
  finally show ?thesis by simp
qed

lemma aligned_ALIGN_POT: "ALIGN_POT d 16 AND 15 = 0"
  unfolding ALIGN_POT_def by (simp add: and.assoc)

lemma ALIGN_POT_next:
  fixes d :: u64
  assumes "d AND 15 \<noteq> 0"
  shows "ALIGN_POT d 16 = d + (16 - (d AND 15))"
proof -
  define r where "r = d AND 15"
  have r: "r \<noteq> 0" "r < 16" using assms low_bits_less[of d] by (simp_all add: r_def)
  then have "unat r \<noteq> 0" "unat r < 16" by (simp_all add: unat_eq_0 word_less_nat_alt)
  then have "unat (r - 1) = unat r - 1" using r(1) by (simp add: unat_minus_one)
  have "unat d mod 16 = unat r" by (simp add: r_def unat_low_bits)
  have "(unat d + 15) mod 16 = (unat d mod 16 + 15) mod 16" by (simp add: mod_add_left_eq)
  also have "unat d mod 16 + 15 = (unat r - 1) + 16"
    using \<open>unat d mod 16 = unat r\<close> \<open>unat r \<noteq> 0\<close> by simp
  also have "((unat r - 1) + 16) mod 16 = unat r - 1" using \<open>unat r < 16\<close> by simp
  finally have "(unat d + 15) mod 16 = unat r - 1" .
  then have "unat ((d + 15) AND 15) = unat (r - 1)"
    using \<open>unat (r - 1) = unat r - 1\<close> unfolding unat_low_bits unat_add_mod_16 by simp
  then have low: "(d + 15) AND 15 = r - 1" by (rule word_unat_eq_iff[THEN iffD2])
  have "(d + 15) AND NOT 15 = d + 15 - ((d + 15) AND 15)"
    by (rule and_not_eq_diff)
  then have "(d + 15) AND NOT 15 = d + 15 - (r - 1)"
    unfolding low .
  moreover have "d + 16 - 1 = d + 15" "(16 :: u64) - 1 = 15" by simp_all
  then have "ALIGN_POT d 16 = (d + 15) AND NOT 15" unfolding ALIGN_POT_def by (simp only:)
  moreover have "d + 15 - (r - 1) = d + (16 - r)" by simp
  ultimately show ?thesis by (simp only: r_def)
qed

lemma stream_loop_copies:
  "d AND 15 = 0 \<Longrightarrow> s AND 15 = 0 \<Longrightarrow> disjoint_buffers d s len \<Longrightarrow>
   \<exists>d' s' len' mem'. stream_loop d s len mem = Some (d', s', len', mem')
      \<and> copies d s len mem (if len' \<noteq> 0 then memcpy d' s' len' mem' else mem')"
proof (induction d s len mem rule: stream_loop.induct)
  case (1 d s len mem)
  show ?case
  proof (cases "16 \<le> len")
    case False
    have "copies d s len mem (if len \<noteq> 0 then memcpy d s len mem else mem)"
      using memcpy_copies[OF "1.prems"(3)] copies_nothing by auto
    then show ?thesis using False by (subst stream_loop.simps) simp
  next
    case True
    obtain mem1 where st: "(mm_stream_load_si128 mem s \<bind> mm_store_si128 mem d) = Some mem1"
      and c1: "copies d s 16 mem mem1"
      using stream_store_copies[OF "1.prems"(1,2)] by blast
    then obtain temp1 where ld: "mm_stream_load_si128 mem s = Some temp1"
      and sto: "mm_store_si128 mem d temp1 = Some mem1"
      by (auto simp: bind_eq_Some_conv)
    have u: "unat (len - 16) = unat len - 16" "16 \<le> unat len"
      using True by (simp_all add: unat_sub word_le_nat_alt)
    have sum: "unat (16 :: u64) + unat (len - 16) < 2 ^ 64"
      using u unsigned_less[of len] by simp
    have len: "16 + (len - 16) = len" by simp
    have dis: "disjoint_buffers d s (16 + (len - 16))" using "1.prems"(3) by simp
    have "\<exists>d' s' len' mem'. stream_loop (d + 16) (s + 16) (len - 16) mem1 = Some (d', s', len', mem')
      \<and> copies (d + 16) (s + 16) (len - 16) mem1 (if len' \<noteq> 0 then memcpy d' s' len' mem' else mem')"
      using True ld sto
    proof (rule "1.IH")
      show "(d + 16) AND 15 = 0" "(s + 16) AND 15 = 0"
        using "1.prems"(1,2) by (simp_all add: low_bits_add_16)
      show "disjoint_buffers (d + 16) (s + 16) (len - 16)"
        by (rule disjoint_buffers_slide[OF dis sum])
    qed
    then obtain d' s' len' mem' where
      r: "stream_loop (d + 16) (s + 16) (len - 16) mem1 = Some (d', s', len', mem')"
      and c2: "copies (d + 16) (s + 16) (len - 16) mem1 (if len' \<noteq> 0 then memcpy d' s' len' mem' else mem')"
      by blast
    have "stream_loop d s len mem = Some (d', s', len', mem')"
      using True ld sto r by (subst stream_loop.simps) simp
    moreover have "copies d s len mem (if len' \<noteq> 0 then memcpy d' s' len' mem' else mem')"
      using copies_append[OF c1 c2 sum dis] by simp
    ultimately show ?thesis by blast
  qed
qed

lemma util_streaming_load_memcpy_copies:
  assumes "disjoint_buffers dst src len"
  shows "\<exists>mem'. util_streaming_load_memcpy dst src len mem = Some mem' \<and> copies dst src len mem mem'"
proof (cases "dst AND 15 = src AND 15")
  case False
  then show ?thesis
    using memcpy_copies[OF assms] by (simp add: util_streaming_load_memcpy_def)
next
  case co: True
  show ?thesis
  proof (cases "dst AND 15 = 0")
    case True
    then have "src AND 15 = 0" using co by simp
    from stream_loop_copies[OF True this assms, of mem] show ?thesis
      using co True by (auto simp: util_streaming_load_memcpy_def)
  next
    case False
    define bb where "bb = 16 - (dst AND 15)"
    define r where "r = dst AND 15"
    have r: "r \<noteq> 0" "r < 16" using False low_bits_less[of dst] by (simp_all add: r_def)
    then have ur: "unat r \<noteq> 0" "unat r < 16" by (simp_all add: unat_eq_0 word_less_nat_alt)
    have "r \<le> 16" using r(2) by simp
    then have "unat (16 - r) = 16 - unat r" by (simp add: unat_sub)
    then have bb: "bb < 16" "bb \<noteq> 0"
      using ur unfolding bb_def r_def[symmetric] by (simp_all add: word_less_nat_alt unat_eq_0 [symmetric] del: unat_eq_0)
    have al: "align_uintptr dst 16 = Some (dst + bb)" "align_uintptr src 16 = Some (src + bb)"
      using False co ALIGN_POT_next[of dst] ALIGN_POT_next[of src]
      by (simp_all add: align_uintptr_def has_single_bit_def bb_def)
    have ad: "(dst + bb) AND 15 = 0" "(src + bb) AND 15 = 0"
      using al aligned_ALIGN_POT[of dst] aligned_ALIGN_POT[of src]
      by (simp_all add: align_uintptr_def has_single_bit_def)
    define n1 where "n1 = min bb len"
    define mem1 where "mem1 = memcpy dst src n1 mem"
    have n1: "n1 \<le> len" by (simp add: n1_def)
    have c1: "copies dst src n1 mem mem1"
      unfolding mem1_def by (rule memcpy_copies[OF disjoint_buffers_mono[OF assms n1]])
    have unfold: "util_streaming_load_memcpy dst src len mem
        = stream_loop (dst + bb) (src + bb) (len - n1) mem1
            \<bind> (\<lambda>(d, s, len, mem). Some (if len \<noteq> 0 then memcpy d s len mem else mem))"
      using co[symmetric] False bb(1) al
      by (simp add: util_streaming_load_memcpy_def bb_def[symmetric] n1_def mem1_def Let_def)
    show ?thesis
    proof (cases "len \<le> bb")
      case True
      then have "n1 = len" by (simp add: n1_def min_def)
      then show ?thesis
        using c1 unfolding unfold by (subst stream_loop.simps) simp
    next
      case False
      then have n1bb: "n1 = bb" "bb \<le> len" by (auto simp: n1_def min_def)
      have u: "unat (len - bb) = unat len - unat bb" "unat bb \<le> unat len"
        using n1bb(2) by (simp_all add: unat_sub word_le_nat_alt)
      have sum: "unat bb + unat (len - bb) < 2 ^ 64" using u unsigned_less[of len] by simp
      have dis: "disjoint_buffers dst src (bb + (len - bb))" using assms by simp
      from stream_loop_copies[OF ad disjoint_buffers_slide[OF dis sum], of mem1]
      obtain d' s' len' mem' where
        r: "stream_loop (dst + bb) (src + bb) (len - bb) mem1 = Some (d', s', len', mem')"
        and c2: "copies (dst + bb) (src + bb) (len - bb) mem1
                   (if len' \<noteq> 0 then memcpy d' s' len' mem' else mem')"
        by blast
      have "copies dst src len mem (if len' \<noteq> 0 then memcpy d' s' len' mem' else mem')"
        using copies_append[OF c1[unfolded n1bb(1)] c2 sum dis] by simp
      then show ?thesis unfolding unfold n1bb(1) r by simp
    qed
  qed
qed

text \<open>Claim C2. For every destination, source and length such that the two buffers lie
  inside the address space and do not overlap, whatever their alignments,
  \<open>util_streaming_load_memcpy\<close> returns (no \<open>ASSERT\<close> fails and no 16-byte access is
  misaligned) and leaves memory exactly as the ordinary byte-by-byte copy does: byte \<open>i\<close> of
  the destination holds what byte \<open>i\<close> of the source held, for every \<open>i\<close> below the length,
  and every byte outside the destination is unchanged.\<close>

theorem streaming_copy_is_byte_copy:
  assumes "separate dst src len"
  shows "\<exists>mem'. util_streaming_load_memcpy dst src len mem = Some mem'
      \<and> mem' = byte_copy dst src (unat len) mem
      \<and> (\<forall>i < unat len. mem' (dst + of_nat i) = mem (src + of_nat i))
      \<and> (\<forall>a. \<not> a - dst < len \<longrightarrow> mem' a = mem a)"
proof -
  have dis: "disjoint_buffers dst src len" using assms by (rule separate_disjoint)
  obtain mem' where res: "util_streaming_load_memcpy dst src len mem = Some mem'"
    and c: "copies dst src len mem mem'"
    using util_streaming_load_memcpy_copies[OF dis] by blast
  have "copies dst src len mem (byte_copy dst src (unat len) mem)"
    using memcpy_copies[OF dis] by (simp add: memcpy_def)
  then have eq: "mem' = byte_copy dst src (unat len) mem" using c by (rule copies_unique[rotated])
  have "mem' (dst + of_nat i) = mem (src + of_nat i)" if "i < unat len" for i
  proof -
    have "unat len < 2 ^ 64" using unsigned_less[of len] by simp
    then have "i < 2 ^ 64" using that by (rule order_less_trans[rotated])
    then have "unat (of_nat i :: u64) = i" by (simp add: unat_of_nat)
    then have "(of_nat i :: u64) < len" using that by (simp add: word_less_nat_alt)
    then show ?thesis using c unfolding copies_def by simp
  qed
  moreover have "mem' a = mem a" if "\<not> a - dst < len" for a
    using c that unfolding copies_def by simp
  ultimately show ?thesis using res eq by blast
qed

text \<open>Forty bytes from \<open>0x2003\<close> to \<open>0x1003\<close>, where byte \<open>a\<close> of memory holds the low
  eight bits of \<open>a\<close>: a head of 13 bytes, one 16-byte block and a tail of 11 bytes. The
  same with the source at \<open>0x2004\<close>, where the alignments differ.\<close>

lemma streaming_copy_example:
  "map (the (util_streaming_load_memcpy 0x1003 0x2003 40 (\<lambda>a. ucast a)))
       [0x1002, 0x1003, 0x100F, 0x1010, 0x101F, 0x1020, 0x102A, 0x102B]
     = [0x02, 0x03, 0x0F, 0x10, 0x1F, 0x20, 0x2A, 0x2B]"
  "map (the (util_streaming_load_memcpy 0x1003 0x2004 40 (\<lambda>a. ucast a)))
       [0x1002, 0x1003, 0x100F, 0x1010, 0x101F, 0x1020, 0x102A, 0x102B]
     = [0x02, 0x04, 0x10, 0x11, 0x20, 0x21, 0x2B, 0x2B]"
  by code_simp+

lemma separate_example: "separate 0x1003 0x2003 40"
  by (simp add: separate_def)

theorem streaming_copy_is_byte_copy_witness:
  "separate 0x1003 0x2003 40
   \<and> (\<exists>mem'. util_streaming_load_memcpy 0x1003 0x2003 40 (\<lambda>a. ucast a) = Some mem'
      \<and> mem' = byte_copy 0x1003 0x2003 (unat (40 :: u64)) (\<lambda>a. ucast a)
      \<and> (\<forall>i < unat (40 :: u64). mem' (0x1003 + of_nat i) = ucast (0x2003 + of_nat i :: u64))
      \<and> (\<forall>a. \<not> a - 0x1003 < 40 \<longrightarrow> mem' a = ucast a))
   \<and> map (the (util_streaming_load_memcpy 0x1003 0x2003 40 (\<lambda>a. ucast a)))
       [0x1002, 0x1003, 0x100F, 0x1010, 0x101F, 0x1020, 0x102A, 0x102B]
     = [0x02, 0x03, 0x0F, 0x10, 0x1F, 0x20, 0x2A, 0x2B]"
  using separate_example
    streaming_copy_is_byte_copy[OF separate_example, where mem = "\<lambda>a. ucast a"]
    streaming_copy_example(1)
  by (intro conjI)


section \<open>Walking the buffers of a range (buffer\_cache.h)\<close>

text \<open>The constants of \<open>BufferCache\<close>.\<close>

definition CACHING_PAGEBITS :: nat where "CACHING_PAGEBITS = 12"
definition CACHING_PAGESIZE :: u64 where "CACHING_PAGESIZE = push_bit CACHING_PAGEBITS 1"

text \<open>A \<open>BufferId\<close> is a slot index, \<open>NULL_BUFFER_ID\<close> is slot 0 and \<open>!buffer_id\<close> holds for it
  alone. Of a \<open>Buffer\<close> the walk reads \<open>CpuAddr()\<close> and \<open>SizeBytes()\<close>. The page table and the
  slot vector are parameters of the walk: maps from pages to ids and from ids to buffers,
  which the callback does not change.\<close>

type_synonym BufferId = "32 word"

definition NULL_BUFFER_ID :: BufferId where "NULL_BUFFER_ID = 0"

record Buffer =
  CpuAddr :: VAddr
  SizeBytes :: u64

text \<open>Modelled from the spec: \<open>Common::DivCeil\<close> (its header is not among the sources), the
  quotient rounded up, computed in the type of its arguments as
  \<open>(number + divisor - 1) / divisor\<close>.\<close>

definition DivCeil :: "u64 \<Rightarrow> u64 \<Rightarrow> u64" where
  "DivCeil number divisor = (number + divisor - 1) div divisor"

text \<open>The \<open>for\<close> loop of \<open>ForEachBufferInRange\<close> from the cursor \<open>page\<close> on; \<open>None\<close> is a
  loop that does not end. The callback receives the id and the buffer and transforms the
  state of the caller.\<close>

partial_function (option) ForEachBufferInRange_loop ::
  "(u64 \<Rightarrow> BufferId) \<Rightarrow> (BufferId \<Rightarrow> Buffer) \<Rightarrow> (BufferId \<Rightarrow> Buffer \<Rightarrow> 's \<Rightarrow> 's)
     \<Rightarrow> u64 \<Rightarrow> u64 \<Rightarrow> 's \<Rightarrow> 's option"
where
  "ForEachBufferInRange_loop page_table slot_buffers func page_end page s =
     (if page < page_end then
        (let buffer_id = page_table page in
         if buffer_id = NULL_BUFFER_ID
         then ForEachBufferInRange_loop page_table slot_buffers func page_end (page + 1) s
         else
           (let buffer = slot_buffers buffer_id;
                s' = func buffer_id buffer s;
                end_addr = CpuAddr buffer + SizeBytes buffer
            in ForEachBufferInRange_loop page_table slot_buffers func page_end
                 (DivCeil end_addr CACHING_PAGESIZE) s'))
      else Some s)"

declare ForEachBufferInRange_loop.simps [code]

definition ForEachBufferInRange ::
  "(u64 \<Rightarrow> BufferId) \<Rightarrow> (BufferId \<Rightarrow> Buffer) \<Rightarrow> VAddr \<Rightarrow> u64
     \<Rightarrow> (BufferId \<Rightarrow> Buffer \<Rightarrow> 's \<Rightarrow> 's) \<Rightarrow> 's \<Rightarrow> 's option"
where
  "ForEachBufferInRange page_table slot_buffers device_addr sz func s =
     (let page_end = DivCeil (device_addr + sz) CACHING_PAGESIZE
      in ForEachBufferInRange_loop page_table slot_buffers func page_end
           (drop_bit CACHING_PAGEBITS device_addr) s)"

text \<open>The precondition: the range \<open>[CpuAddr, CpuAddr + SizeBytes)\<close> of the buffer covers the
  page, and its end rounded up to a page is an address of 64 bits (as it is for every
  buffer inside the address space of 40 bits of \<open>Traits::AddressSpaceBits\<close>).\<close>

definition covers :: "Buffer \<Rightarrow> u64 \<Rightarrow> bool" where
  "covers buffer page \<longleftrightarrow>
     unat (CpuAddr buffer) \<le> unat page * 4096
     \<and> (unat page + 1) * 4096 \<le> unat (CpuAddr buffer) + unat (SizeBytes buffer)
     \<and> unat (CpuAddr buffer) + unat (SizeBytes buffer) + 4095 < 2 ^ 64"

definition covering :: "(u64 \<Rightarrow> BufferId) \<Rightarrow> (BufferId \<Rightarrow> Buffer) \<Rightarrow> bool" where
  "covering page_table slot_buffers \<longleftrightarrow>
     (\<forall>page. page_table page \<noteq> NULL_BUFFER_ID \<longrightarrow> covers (slot_buffers (page_table page)) page)"

text \<open>The cursor after the iteration at \<open>page\<close>.\<close>

definition next_page :: "(u64 \<Rightarrow> BufferId) \<Rightarrow> (BufferId \<Rightarrow> Buffer) \<Rightarrow> u64 \<Rightarrow> u64" where
  "next_page page_table slot_buffers page =
     (if page_table page = NULL_BUFFER_ID then page + 1
      else DivCeil (CpuAddr (slot_buffers (page_table page)) + SizeBytes (slot_buffers (page_table page)))
             CACHING_PAGESIZE)"

definition example_table :: "u64 \<Rightarrow> BufferId" where
  "example_table page = (if page = 1 \<or> page = 2 then 1 else if page = 4 then 2 else 0)"

definition example_buffers :: "BufferId \<Rightarrow> Buffer" where
  "example_buffers buffer_id =
     (if buffer_id = 1 then \<lparr>CpuAddr = 0x1000, SizeBytes = 0x2000\<rparr>
      else \<lparr>CpuAddr = 0x4000, SizeBytes = 0x1000\<rparr>)"


lemma loop_step:
  "ForEachBufferInRange_loop page_table slot_buffers func page_end page s =
     (if page < page_end then
        ForEachBufferInRange_loop page_table slot_buffers func page_end
          (next_page page_table slot_buffers page)
          (if page_table page = NULL_BUFFER_ID then s
           else func (page_table page) (slot_buffers (page_table page)) s)
      else Some s)"
  by (subst ForEachBufferInRange_loop.simps) (simp add: next_page_def Let_def)

lemma unat_DivCeil:
  assumes "unat n + 4095 < 2 ^ 64"
  shows "unat (DivCeil n CACHING_PAGESIZE) = (unat n + 4095) div 4096"
proof -
  have "unat (n + 4095) = unat n + 4095"
    using assms unat_add_lem[of n 4095] by simp
  moreover have "DivCeil n CACHING_PAGESIZE = (n + 4095) div 4096"
    by (simp add: DivCeil_def CACHING_PAGESIZE_def CACHING_PAGEBITS_def add.commute)
  moreover have "unat ((n + 4095) div 4096) = unat (n + 4095) div 4096"
    by (simp add: unat_div)
  ultimately show ?thesis by simp
qed

lemma covers_before_end:
  assumes "covers buffer page"
  shows "page < DivCeil (CpuAddr buffer + SizeBytes buffer) CACHING_PAGESIZE"
proof -
  let ?E = "unat (CpuAddr buffer) + unat (SizeBytes buffer)"
  have E: "?E + 4095 < 2 ^ 64" "(unat page + 1) * 4096 \<le> ?E"
    using assms by (simp_all add: covers_def)
  have "?E < 2 ^ 64" using E(1) by (rule add_lessD1)
  then have sum: "unat (CpuAddr buffer + SizeBytes buffer) = ?E"
    using unat_add_lem[of "CpuAddr buffer" "SizeBytes buffer"] by simp
  have "(unat page + 1) * 4096 \<le> ?E + 4095" using E(2) by (rule trans_le_add1)
  then have "unat page + 1 \<le> (?E + 4095) div 4096"
    by (simp add: less_eq_div_iff_mult_less_eq)
  then have "unat page < unat (DivCeil (CpuAddr buffer + SizeBytes buffer) CACHING_PAGESIZE)"
    using unat_DivCeil[of "CpuAddr buffer + SizeBytes buffer"] E(1) sum by simp
  then show ?thesis by (simp add: word_less_nat_alt)
qed

lemma cursor_increases:
  assumes "covering page_table slot_buffers" "page < page_end"
  shows "page < next_page page_table slot_buffers page"
proof (cases "page_table page = NULL_BUFFER_ID")
  case True
  have "unat page < unat page_end" using assms(2) by (simp add: word_less_nat_alt)
  moreover have "unat page_end < 2 ^ 64" using unsigned_less[of page_end] by simp
  ultimately have "unat page + 1 < 2 ^ 64" by simp
  then have "unat (page + 1) = unat page + 1" using unat_add_lem[of page 1] by simp
  then show ?thesis using True by (simp add: next_page_def word_less_nat_alt)
next
  case False
  then have "covers (slot_buffers (page_table page)) page"
    using assms(1) by (simp add: covering_def)
  then show ?thesis using False by (simp add: next_page_def covers_before_end)
qed

lemma loop_ids:
  assumes "covering page_table slot_buffers"
  shows "\<exists>ids. distinct ids
      \<and> (\<forall>buffer_id \<in> set ids. buffer_id \<noteq> NULL_BUFFER_ID
            \<and> (\<exists>p. page \<le> p \<and> p < page_end \<and> page_table p = buffer_id))
      \<and> (\<forall>func (s :: 's). ForEachBufferInRange_loop page_table slot_buffers func page_end page s
            = Some (fold (\<lambda>buffer_id. func buffer_id (slot_buffers buffer_id)) ids s))"
proof (induction "unat page_end - unat page" arbitrary: page rule: less_induct)
  case less
  show ?case
  proof (cases "page < page_end")
    case False
    then have "\<forall>func (s :: 's). ForEachBufferInRange_loop page_table slot_buffers func page_end page s
            = Some (fold (\<lambda>buffer_id. func buffer_id (slot_buffers buffer_id)) [] s)"
      by (subst loop_step) simp
    then show ?thesis by (intro exI[of _ "[]"]) simp
  next
    case True
    define q where "q = next_page page_table slot_buffers page"
    have pq: "page < q" unfolding q_def by (rule cursor_increases[OF assms True])
    have "unat page < unat q" "unat page < unat page_end"
      using pq True by (simp_all add: word_less_nat_alt)
    then have "unat page_end - unat q < unat page_end - unat page" by simp
    from less[OF this] obtain ids where all: "distinct ids
      \<and> (\<forall>buffer_id \<in> set ids. buffer_id \<noteq> NULL_BUFFER_ID
            \<and> (\<exists>p. q \<le> p \<and> p < page_end \<and> page_table p = buffer_id))
      \<and> (\<forall>func (s :: 's). ForEachBufferInRange_loop page_table slot_buffers func page_end q s
            = Some (fold (\<lambda>buffer_id. func buffer_id (slot_buffers buffer_id)) ids s))" ..
    note ids = conjunct1[OF all] conjunct1[OF conjunct2[OF all]] conjunct2[OF conjunct2[OF all]]
    have later: "\<forall>buffer_id \<in> set ids. buffer_id \<noteq> NULL_BUFFER_ID
            \<and> (\<exists>p. page \<le> p \<and> p < page_end \<and> page_table p = buffer_id)"
    proof
      fix buffer_id assume "buffer_id \<in> set ids"
      then have "buffer_id \<noteq> NULL_BUFFER_ID
            \<and> (\<exists>p. q \<le> p \<and> p < page_end \<and> page_table p = buffer_id)"
        using ids(2) by (rule bspec[rotated])
      then obtain p where "buffer_id \<noteq> NULL_BUFFER_ID" "q \<le> p" "p < page_end"
        "page_table p = buffer_id"
        by blast
      moreover have "page \<le> p" using pq \<open>q \<le> p\<close> by simp
      ultimately show "buffer_id \<noteq> NULL_BUFFER_ID
            \<and> (\<exists>p. page \<le> p \<and> p < page_end \<and> page_table p = buffer_id)"
        by blast
    qed
    show ?thesis
    proof (cases "page_table page = NULL_BUFFER_ID")
      case null: True
      have "\<forall>func (s :: 's). ForEachBufferInRange_loop page_table slot_buffers func page_end page s
            = Some (fold (\<lambda>buffer_id. func buffer_id (slot_buffers buffer_id)) ids s)"
        using True null ids(3) by (subst loop_step) (simp add: q_def)
      then show ?thesis using ids(1) later by (intro exI[of _ ids]) simp
    next
      case False
      let ?b = "page_table page"
      have q: "q = DivCeil (CpuAddr (slot_buffers ?b) + SizeBytes (slot_buffers ?b)) CACHING_PAGESIZE"
        using False by (simp add: q_def next_page_def)
      have fresh: "?b \<notin> set ids"
      proof
        assume "?b \<in> set ids"
        then have "?b \<noteq> NULL_BUFFER_ID
            \<and> (\<exists>p. q \<le> p \<and> p < page_end \<and> page_table p = ?b)"
          using ids(2) by (rule bspec[rotated])
        then obtain p where p: "q \<le> p" "page_table p = ?b" by blast
        then have "covers (slot_buffers ?b) p"
          using assms False unfolding covering_def by metis
        then have "p < q" unfolding q by (rule covers_before_end)
        then show False using p(1) by simp
      qed
      have run: "\<forall>func (s :: 's). ForEachBufferInRange_loop page_table slot_buffers func page_end page s
            = Some (fold (\<lambda>buffer_id. func buffer_id (slot_buffers buffer_id)) (?b # ids) s)"
        using True False ids(3) by (subst loop_step) (simp add: q_def)
      have here: "?b \<noteq> NULL_BUFFER_ID \<and> (\<exists>p. page \<le> p \<and> p < page_end \<and> page_table p = ?b)"
        using False True by auto
      show ?thesis
        using ids(1) fresh later here run by (intro exI[of _ "?b # ids"]) simp
    qed
  qed
qed

text \<open>Claim C10. When every non-null entry of the page table names a buffer that covers
  the page of the entry, the cursor of the loop moves forward in every iteration, and
  \<open>ForEachBufferInRange\<close> returns for every range and every callback. The callback is
  invoked for a list of ids without repetition, in this order, each id the entry of a page
  of the range: no buffer is handed to the callback twice.\<close>

theorem each_buffer_called_once:
  assumes "covering page_table slot_buffers"
  shows "(\<forall>page page_end. page < page_end \<longrightarrow> page < next_page page_table slot_buffers page)
    \<and> (\<exists>ids. distinct ids
          \<and> (\<forall>buffer_id \<in> set ids. buffer_id \<noteq> NULL_BUFFER_ID
                \<and> (\<exists>page. drop_bit CACHING_PAGEBITS device_addr \<le> page
                       \<and> page < DivCeil (device_addr + sz) CACHING_PAGESIZE
                       \<and> page_table page = buffer_id))
          \<and> (\<forall>func (s :: 's). ForEachBufferInRange page_table slot_buffers device_addr sz func s
                = Some (fold (\<lambda>buffer_id. func buffer_id (slot_buffers buffer_id)) ids s)))"
proof
  show "\<forall>page page_end. page < page_end \<longrightarrow> page < next_page page_table slot_buffers page"
    by (intro allI impI) (rule cursor_increases[OF assms])
  show "\<exists>ids. distinct ids
          \<and> (\<forall>buffer_id \<in> set ids. buffer_id \<noteq> NULL_BUFFER_ID
                \<and> (\<exists>page. drop_bit CACHING_PAGEBITS device_addr \<le> page
                       \<and> page < DivCeil (device_addr + sz) CACHING_PAGESIZE
                       \<and> page_table page = buffer_id))
          \<and> (\<forall>func (s :: 's). ForEachBufferInRange page_table slot_buffers device_addr sz func s
                = Some (fold (\<lambda>buffer_id. func buffer_id (slot_buffers buffer_id)) ids s))"
    using loop_ids[OF assms, of "drop_bit CACHING_PAGEBITS device_addr"
        "DivCeil (device_addr + sz) CACHING_PAGESIZE"]
    unfolding ForEachBufferInRange_def Let_def .
qed

text \<open>Two buffers: pages 1 and 2 belong to buffer 1 at \<open>[0x1000, 0x3000)\<close>, page 4 to buffer
  2 at \<open>[0x4000, 0x5000)\<close>. Over the range \<open>[0x800, 0x5800)\<close> the callback receives buffer 1
  and then buffer 2; from page 1 the cursor moves to page 3.\<close>

lemma example_covering: "covering example_table example_buffers"
  unfolding covering_def
proof (intro allI impI)
  fix page assume "example_table page \<noteq> NULL_BUFFER_ID"
  then consider "page = 1" | "page = 2" | "page = 4"
    by (auto simp: example_table_def NULL_BUFFER_ID_def split: if_splits)
  then show "covers (example_buffers (example_table page)) page"
    by cases (simp_all add: example_table_def example_buffers_def covers_def)
qed

lemma example_walk:
  "ForEachBufferInRange example_table example_buffers 0x800 0x5000
       (\<lambda>buffer_id buffer acc. acc @ [(buffer_id, CpuAddr buffer, SizeBytes buffer)]) []
     = Some [(1, 0x1000, 0x2000), (2, 0x4000, 0x1000)]"
  "next_page example_table example_buffers 1 = 3"
  by code_simp+

theorem each_buffer_called_once_witness:
  "covering example_table example_buffers
   \<and> (1 :: u64) < next_page example_table example_buffers 1
   \<and> (\<exists>ids. distinct ids
          \<and> (\<forall>buffer_id \<in> set ids. buffer_id \<noteq> NULL_BUFFER_ID
                \<and> (\<exists>page. drop_bit CACHING_PAGEBITS 0x800 \<le> page
                       \<and> page < DivCeil (0x800 + 0x5000) CACHING_PAGESIZE
                       \<and> example_table page = buffer_id))
          \<and> (\<forall>func (s :: (BufferId \<times> VAddr \<times> u64) list).
                ForEachBufferInRange example_table example_buffers 0x800 0x5000 func s
                = Some (fold (\<lambda>buffer_id. func buffer_id (example_buffers buffer_id)) ids s)))
   \<and> ForEachBufferInRange example_table example_buffers 0x800 0x5000
       (\<lambda>buffer_id buffer acc. acc @ [(buffer_id, CpuAddr buffer, SizeBytes buffer)]) []
     = Some [(1, 0x1000, 0x2000), (2, 0x4000, 0x1000)]
   \<and> next_page example_table example_buffers 1 = 3"
proof -
  note A = each_buffer_called_once[OF example_covering, where device_addr = "0x800" and sz = "0x5000"]
  have "(1 :: u64) < 6 \<longrightarrow> 1 < next_page example_table example_buffers 1"
    using conjunct1[OF A] by (elim allE)
  then have step: "(1 :: u64) < next_page example_table example_buffers 1" by simp
  show ?thesis
    apply (intro conjI)
    using example_covering apply assumption
    using step apply assumption
    using conjunct2[OF A] apply assumption
    using example_walk(1) apply assumption
    using example_walk(2) apply assumption
    done
qed

end
